theory Spec2Isabelle
  imports Complex_Main "HOL-Library.AList"
begin

section \<open>pg-idle-guard: the daemon's poll cycle\<close>

text \<open>
  A shallow embedding of the monitoring daemon of pg-idle-guard (package \<open>cli\<close>, the file
  with \<open>runDaemon\<close>, \<open>monitorLoop\<close>, \<open>pollAndAlert\<close> and \<open>shouldTerminate\<close>), of
  \<open>Config.Validate\<close> (internal/config/config.go), of \<open>Connection.IdleDuration\<close> and
  \<open>PoolStats.UsagePercent\<close> (internal/postgres/models.go) and of \<open>getSeverity\<close> (the status
  command).

  Effects are explicit. Every call of \<open>time.Now()\<close> is one reading of a clock, numbered by a
  counter kept in the state; the two database fetches and the terminate call are inputs of a
  cycle; log records, alert dispatches and terminate calls are returned as a list of events in
  the order in which the code performs them.
\<close>

subsection \<open>Go's time package\<close>

text \<open>
  \<open>time.Duration\<close> is an \<open>int64\<close> count of nanoseconds. Durations are only compared in the
  daemon; the one operation that produces them, \<open>Time.Sub\<close>, saturates at the ends of the
  \<open>int64\<close> range, which is written out in \<open>saturate\<close>.
\<close>

type_synonym Duration = int

definition minDuration :: Duration where
  "minDuration = - (2 ^ 63)"

definition maxDuration :: Duration where
  "maxDuration = 2 ^ 63 - 1"

definition Second :: Duration where
  "Second = 1000000000"

definition Minute :: Duration where
  "Minute = 60 * Second"

definition saturate :: "int \<Rightarrow> Duration" where
  "saturate d = (if d < minDuration then minDuration
                 else if maxDuration < d then maxDuration else d)"

text \<open>
  A \<open>time.Time\<close> carries a wall clock reading and, when it comes from \<open>time.Now()\<close>, a
  monotonic clock reading. Both are nanosecond counts here; the wall clock counts from the
  zero \<open>Time\<close> (January 1, year 1, 00:00 UTC), which has no monotonic reading.
\<close>

record Time =
  wallNs :: int
  monoNs :: "int option"

definition zeroTime :: Time where
  "zeroTime = \<lparr>wallNs = 0, monoNs = None\<rparr>"

text \<open>
  \<open>t.Sub(u)\<close>: the difference of the monotonic readings when both times have one, of the wall
  clock readings otherwise; the maximum (minimum) duration when the difference does not fit.
\<close>

definition Sub :: "Time \<Rightarrow> Time \<Rightarrow> Duration" where
  "Sub t u = (case (monoNs t, monoNs u) of
                (Some a, Some b) \<Rightarrow> saturate (a - b)
              | _ \<Rightarrow> saturate (wallNs t - wallNs u))"

text \<open>\<open>time.Since(t)\<close> is \<open>time.Now().Sub(t)\<close>; the reading of the clock is the first argument.\<close>

definition Since :: "Time \<Rightarrow> Time \<Rightarrow> Duration" where
  "Since now t = Sub now t"

subsection \<open>Configuration\<close>

record ProtectedApp =
  Name :: string
  MinIdleDuration :: Duration
  RequireConfirmation :: bool

text \<open>
  The fields of \<open>config.Config\<close> that the daemon reads, flattened:
  \<open>Connection.URL\<close>, \<open>Connection.Host\<close>, \<open>Thresholds.IdleTransaction.Warning/Critical\<close>,
  \<open>Thresholds.ConnectionPool.WarningPercent/CriticalPercent\<close>, \<open>Alerts.Cooldown\<close> and
  \<open>AutoTerm.*\<close>.
\<close>

record Config =
  ConnectionURL :: string
  ConnectionHost :: string
  IdleWarning :: Duration
  IdleCritical :: Duration
  WarningPercent :: int
  CriticalPercent :: int
  AlertsCooldown :: Duration
  AutoTermEnabled :: bool
  AutoTermAfter :: Duration
  AutoTermDryRun :: bool
  ExcludeApps :: "string list"
  ExcludeIPs :: "string list"
  ProtectedApps :: "ProtectedApp list"

text \<open>
  \<open>Config.Validate\<close>; the first argument is the value of the environment variable
  \<open>DATABASE_URL\<close>. The result is the error message, or \<open>None\<close> for \<open>nil\<close>.
  \<open>runDaemon\<close> returns without starting the loop unless the result is \<open>nil\<close>.
\<close>

definition Validate :: "string \<Rightarrow> Config \<Rightarrow> string option" where
  "Validate database_url c =
     (if ConnectionURL c = [] \<and> ConnectionHost c = [] \<and> database_url = []
      then Some ''no database connection configured: set connection.url, connection.host, or DATABASE_URL''
      else if IdleWarning c \<ge> IdleCritical c
      then Some ''idle_transaction.warning must be less than critical''
      else if WarningPercent c \<ge> CriticalPercent c
      then Some ''connection_pool.warning_percent must be less than critical_percent''
      else None)"

subsection \<open>Severities\<close>

text \<open>
  The constants \<open>SeverityWarning\<close> and \<open>SeverityCritical\<close> of package \<open>alerts\<close>
  (the alert severity levels declared with the Slack client).
\<close>

definition SeverityWarning :: string where
  "SeverityWarning = ''warning''"

definition SeverityCritical :: string where
  "SeverityCritical = ''critical''"

subsection \<open>The cooldown gate of pool alerts\<close>

record alertCooldown =
  lastPoolWarning :: Time
  lastPoolCritical :: Time

text \<open>
  \<open>canSendPoolAlert\<close>. The first argument is the value that \<open>time.Now()\<close> returns in the
  first line of the method; the result is the returned boolean and the receiver after the call.
\<close>

definition canSendPoolAlert :: "Time \<Rightarrow> alertCooldown \<Rightarrow> string \<Rightarrow> Duration \<Rightarrow> bool \<times> alertCooldown" where
  "canSendPoolAlert now a severity cooldownDuration =
     (if severity = SeverityWarning then
        (if Sub now (lastPoolWarning a) \<ge> cooldownDuration
         then (True, a\<lparr>lastPoolWarning := now\<rparr>) else (False, a))
      else if severity = SeverityCritical then
        (if Sub now (lastPoolCritical a) \<ge> cooldownDuration
         then (True, a\<lparr>lastPoolCritical := now\<rparr>) else (False, a))
      else (False, a))"

text \<open>The package variable \<open>cooldown = &alertCooldown{}\<close>: both fields are the zero \<open>Time\<close>.\<close>

definition freshCooldown :: alertCooldown where
  "freshCooldown = \<lparr>lastPoolWarning = zeroTime, lastPoolCritical = zeroTime\<rparr>"

text \<open>
  A sequence of calls of the gate, each with the clock reading it sees, its severity and its
  cooldown duration; the result is the gate after the last call.
\<close>

fun poolAlertCalls :: "alertCooldown \<Rightarrow> (Time \<times> string \<times> Duration) list \<Rightarrow> alertCooldown" where
  "poolAlertCalls a [] = a"
| "poolAlertCalls a ((now, severity, cooldownDuration) # calls) =
     poolAlertCalls (snd (canSendPoolAlert now a severity cooldownDuration)) calls"

subsection \<open>Sessions and pool statistics\<close>

text \<open>
  \<open>postgres.Connection\<close>, with the fields that the daemon reads.
\<close>

record Connection =
  PID :: int
  ApplicationName :: string
  ClientAddr :: string
  StateChange :: Time
  Query :: string

definition IdleDuration :: "Time \<Rightarrow> Connection \<Rightarrow> Duration" where
  "IdleDuration now c = Since now (StateChange c)"

record PoolStats =
  MaxConnections :: int
  ReservedSuperuser :: int
  TotalConnections :: int
  ActiveConnections :: int
  IdleConnections :: int
  IdleInTransaction :: int
  AvailableConnections :: int

subsection \<open>The auto-terminate policy\<close>

text \<open>
  The third loop of \<open>shouldTerminate\<close>: the first protected application with the session's
  name decides. The debug and info log records of \<open>shouldTerminate\<close> are left out.
\<close>

fun protectedAllows :: "ProtectedApp list \<Rightarrow> string \<Rightarrow> Duration \<Rightarrow> bool" where
  "protectedAllows [] app duration = True"
| "protectedAllows (protected # rest) app duration =
     (if app = Name protected then
        (if RequireConfirmation protected then False
         else if duration < MinIdleDuration protected then False
         else True)
      else protectedAllows rest app duration)"

definition shouldTerminate :: "Config \<Rightarrow> Connection \<Rightarrow> Duration \<Rightarrow> bool" where
  "shouldTerminate cfg conn duration =
     (if ApplicationName conn \<in> set (ExcludeApps cfg) then False
      else if ClientAddr conn \<in> set (ExcludeIPs cfg) then False
      else protectedAllows (ProtectedApps cfg) (ApplicationName conn) duration)"

subsection \<open>The status command's severity\<close>

text \<open>\<open>getSeverity\<close> of the status command, for the idle duration of a session.\<close>

definition getSeverity :: "Config \<Rightarrow> Duration \<Rightarrow> string" where
  "getSeverity cfg duration =
     (if duration \<ge> IdleCritical cfg then ''[CRIT]''
      else if duration \<ge> IdleWarning cfg then ''[WARN]''
      else [])"

subsection \<open>Effects of a poll cycle\<close>

text \<open>An error value of Go, by its message.\<close>

datatype error = QueryError string

text \<open>
  What a cycle does to the outside, in the order of the code: the \<open>slog\<close> records of
  \<open>pollAndAlert\<close> and \<open>monitorLoop\<close>, the calls of the four alert helpers
  (\<open>sendPoolAlert\<close>, \<open>sendIdleTransactionAlert\<close>, \<open>sendTerminationAlert\<close>,
  \<open>sendResolvedAlert\<close>, each with its arguments) and the call of
  \<open>client.TerminateBackend\<close>. Log records carry the duration itself where the code formats it
  with \<open>util.FormatDuration\<close>.
\<close>

datatype event =
    LogPoolCritical real int int
  | LogPoolWarning real int int
  | PoolAlert string int int real
  | LogIdleDetected int string Duration
  | LogIdleCritical int string Duration
  | IdleTransactionAlert string int string Duration string
  | LogDryRun int string Duration
  | LogAutoTerminating int string Duration
  | TerminateBackend int
  | LogTerminateFailed int error
  | TerminationAlert int string Duration string
  | LogResolved int string Duration
  | ResolvedAlert int string Duration
  | LogPollingFailed error
  | LogDaemonStopped

subsection \<open>The state of the daemon\<close>

record trackedIdle =
  pid :: int
  appName :: string
  query :: string
  firstSeen :: Time
  warningSent :: bool
  criticalSent :: bool

text \<open>
  The package variable \<open>cooldown\<close>, the map \<open>tracked\<close> of \<open>monitorLoop\<close> and the number of
  clock readings taken so far. The map is an association list with one entry for a key;
  \<open>map_of\<close> is the lookup, \<open>AList.update\<close> stores (a new key goes to the end) and
  \<open>AList.delete\<close> removes.
\<close>

record daemon =
  cooldown :: alertCooldown
  tracked :: "(int \<times> trackedIdle) list"
  ticks :: nat

definition startDaemon :: daemon where
  "startDaemon = \<lparr>cooldown = freshCooldown, tracked = [], ticks = 0\<rparr>"

text \<open>
  The inputs of one cycle: the results of \<open>client.GetPoolStats\<close> and
  \<open>client.GetIdleTransactions\<close> (an error also when the query context timed out) and, for a
  backend identifier, the result of \<open>client.TerminateBackend\<close>.
\<close>

record poll_input =
  poolStats :: "error + PoolStats"
  idleTransactions :: "error + Connection list"
  terminate :: "int \<Rightarrow> error + bool"

subsection \<open>The environment\<close>

text \<open>
  What the daemon takes from outside: the clock (\<open>clock k\<close> is the value of the \<open>k\<close>-th call
  of \<open>time.Now()\<close>), the \<open>float64\<close> arithmetic of \<open>UsagePercent\<close> (\<open>usageOf total available\<close>
  is the \<open>float64\<close> value of \<open>float64(total) / float64(available) * 100\<close>, a finite double
  read as the real number it denotes; its rounding is not modelled),
  \<open>util.TruncateQuery\<close> (it joins the fields of the query with single blanks and cuts
  the result to the given length; the daemon stores its value in the entry and never reads
  it again, and it is a parameter here) and the order in which \<open>range\<close> visits the
  entries of the map \<open>tracked\<close>, which Go leaves open.
\<close>

record env =
  clock :: "nat \<Rightarrow> Time"
  usageOf :: "int \<Rightarrow> int \<Rightarrow> real"
  TruncateQuery :: "string \<Rightarrow> int \<Rightarrow> string"
  rangeOrder :: "(int \<times> trackedIdle) list \<Rightarrow> (int \<times> trackedIdle) list"

text \<open>A \<open>range\<close> visits every entry of a map once.\<close>

definition visitsAll :: "env \<Rightarrow> (int \<times> trackedIdle) list \<Rightarrow> bool" where
  "visitsAll e entries =
     (distinct (map fst (rangeOrder e entries)) \<and> set (rangeOrder e entries) = set entries)"

definition UsagePercent :: "env \<Rightarrow> PoolStats \<Rightarrow> real" where
  "UsagePercent e p =
     (let available = MaxConnections p - ReservedSuperuser p
      in if available \<le> 0 then 100 else usageOf e (TotalConnections p) available)"

subsection \<open>One poll cycle\<close>

text \<open>
  The check of the connection pool thresholds, between the two fetches. The thresholds are
  integers that the code converts with \<open>float64\<close>, which is exact up to \<open>2^53\<close>.
\<close>

definition poolCheck :: "env \<Rightarrow> Config \<Rightarrow> PoolStats \<Rightarrow> daemon \<Rightarrow> event list \<times> daemon" where
  "poolCheck e cfg stats st =
     (let usagePercent = UsagePercent e stats;
          maxAvailable = MaxConnections stats - ReservedSuperuser stats
      in if usagePercent \<ge> real_of_int (CriticalPercent cfg) then
           (let (ok, a) = canSendPoolAlert (clock e (ticks st)) (cooldown st)
                            SeverityCritical (AlertsCooldown cfg);
                st' = st\<lparr>cooldown := a, ticks := Suc (ticks st)\<rparr>
            in (LogPoolCritical usagePercent (TotalConnections stats) maxAvailable #
                (if ok then [PoolAlert SeverityCritical (TotalConnections stats) maxAvailable usagePercent]
                 else []), st'))
         else if usagePercent \<ge> real_of_int (WarningPercent cfg) then
           (let (ok, a) = canSendPoolAlert (clock e (ticks st)) (cooldown st)
                            SeverityWarning (AlertsCooldown cfg);
                st' = st\<lparr>cooldown := a, ticks := Suc (ticks st)\<rparr>
            in (LogPoolWarning usagePercent (TotalConnections stats) maxAvailable #
                (if ok then [PoolAlert SeverityWarning (TotalConnections stats) maxAvailable usagePercent]
                 else []), st'))
         else ([], st))"

text \<open>The lookup of a session in \<open>tracked\<close>, and the new entry when there is none.\<close>

definition trackConn :: "env \<Rightarrow> daemon \<Rightarrow> Connection \<Rightarrow> trackedIdle \<times> daemon" where
  "trackConn e st conn =
     (case map_of (tracked st) (PID conn) of
        Some tc \<Rightarrow> (tc, st)
      | None \<Rightarrow>
          (let tc = \<lparr>pid = PID conn, appName = ApplicationName conn,
                     query = TruncateQuery e (Query conn) 100,
                     firstSeen = clock e (ticks st),
                     warningSent = False, criticalSent = False\<rparr>
           in (tc, st\<lparr>tracked := AList.update (PID conn) tc (tracked st),
                      ticks := Suc (ticks st)\<rparr>)))"

text \<open>The check for the warning threshold and the check for the critical threshold.\<close>

definition checkWarning :: "Config \<Rightarrow> Connection \<Rightarrow> Duration \<Rightarrow> trackedIdle \<Rightarrow> event list \<times> trackedIdle" where
  "checkWarning cfg conn duration tc =
     (if \<not> warningSent tc \<and> duration \<ge> IdleWarning cfg then
        ([LogIdleDetected (PID conn) (ApplicationName conn) duration,
          IdleTransactionAlert SeverityWarning (PID conn) (ApplicationName conn) duration (Query conn)],
         tc\<lparr>warningSent := True\<rparr>)
      else ([], tc))"

definition checkCritical :: "Config \<Rightarrow> Connection \<Rightarrow> Duration \<Rightarrow> trackedIdle \<Rightarrow> event list \<times> trackedIdle" where
  "checkCritical cfg conn duration tc =
     (if \<not> criticalSent tc \<and> duration \<ge> IdleCritical cfg then
        ([LogIdleCritical (PID conn) (ApplicationName conn) duration,
          IdleTransactionAlert SeverityCritical (PID conn) (ApplicationName conn) duration (Query conn)],
         tc\<lparr>criticalSent := True\<rparr>)
      else ([], tc))"

text \<open>Auto-terminate, the last part of the loop body; it leaves the state alone.\<close>

definition autoTerminate :: "Config \<Rightarrow> (int \<Rightarrow> error + bool) \<Rightarrow> Connection \<Rightarrow> Duration \<Rightarrow> event list" where
  "autoTerminate cfg tb conn duration =
     (if AutoTermEnabled cfg \<and> duration \<ge> AutoTermAfter cfg then
        (if shouldTerminate cfg conn duration then
           (if AutoTermDryRun cfg then
              [LogDryRun (PID conn) (ApplicationName conn) duration]
            else
              LogAutoTerminating (PID conn) (ApplicationName conn) duration #
              TerminateBackend (PID conn) #
              (case tb (PID conn) of
                 Inl err \<Rightarrow> [LogTerminateFailed (PID conn) err]
               | Inr success \<Rightarrow>
                   (if success then
                      [TerminationAlert (PID conn) (ApplicationName conn) duration
                         ''auto-terminate threshold exceeded'']
                    else [])))
         else [])
      else [])"

text \<open>
  The body of the loop over the sessions. \<open>tc\<close> is a pointer into the map in the code; the
  model stores the entry back once both flags have been handled.
\<close>

definition processConn :: "env \<Rightarrow> Config \<Rightarrow> (int \<Rightarrow> error + bool) \<Rightarrow> daemon \<Rightarrow> Connection \<Rightarrow> event list \<times> daemon" where
  "processConn e cfg tb st conn =
     (let duration = IdleDuration (clock e (ticks st)) conn;
          (tc, st1) = trackConn e (st\<lparr>ticks := Suc (ticks st)\<rparr>) conn;
          (ev1, tc1) = checkWarning cfg conn duration tc;
          (ev2, tc2) = checkCritical cfg conn duration tc1;
          st2 = st1\<lparr>tracked := AList.update (PID conn) tc2 (tracked st1)\<rparr>
      in (ev1 @ ev2 @ autoTerminate cfg tb conn duration, st2))"

fun processConns :: "env \<Rightarrow> Config \<Rightarrow> (int \<Rightarrow> error + bool) \<Rightarrow> daemon \<Rightarrow> Connection list \<Rightarrow> event list \<times> daemon" where
  "processConns e cfg tb st [] = ([], st)"
| "processConns e cfg tb st (conn # conns) =
     (let (ev1, st1) = processConn e cfg tb st conn;
          (ev2, st2) = processConns e cfg tb st1 conns
      in (ev1 @ ev2, st2))"

text \<open>
  The loop over \<open>tracked\<close> that resolves the sessions no longer seen; \<open>seenPIDs\<close> is the list
  of the identifiers of this cycle's sessions, the last argument the entries still to visit,
  in the order of the \<open>range\<close>. The loop deletes only the entry it is visiting.
\<close>

fun resolveLoop :: "env \<Rightarrow> int list \<Rightarrow> daemon \<Rightarrow> (int \<times> trackedIdle) list \<Rightarrow> event list \<times> daemon" where
  "resolveLoop e seenPIDs st [] = ([], st)"
| "resolveLoop e seenPIDs st ((p, tc) # rest) =
     (if p \<notin> set seenPIDs then
        (let totalDuration = Since (clock e (ticks st)) (firstSeen tc);
             ev1 = LogResolved p (appName tc) totalDuration #
                   (if warningSent tc \<or> criticalSent tc
                    then [ResolvedAlert p (appName tc) totalDuration] else []);
             st1 = st\<lparr>tracked := AList.delete p (tracked st), ticks := Suc (ticks st)\<rparr>;
             (ev2, st2) = resolveLoop e seenPIDs st1 rest
         in (ev1 @ ev2, st2))
      else resolveLoop e seenPIDs st rest)"

text \<open>
  \<open>pollAndAlert\<close>: the events of the cycle, the returned error (\<open>None\<close> for \<open>nil\<close>) and the
  state after the cycle.
\<close>

definition pollAndAlert :: "env \<Rightarrow> Config \<Rightarrow> poll_input \<Rightarrow> daemon \<Rightarrow> event list \<times> error option \<times> daemon" where
  "pollAndAlert e cfg inp st =
     (case poolStats inp of
        Inl err \<Rightarrow> ([], Some err, st)
      | Inr stats \<Rightarrow>
          (let (ev1, st1) = poolCheck e cfg stats st
           in case idleTransactions inp of
                Inl err \<Rightarrow> (ev1, Some err, st1)
              | Inr conns \<Rightarrow>
                  (let (ev2, st2) = processConns e cfg (terminate inp) st1 conns;
                       (ev3, st3) = resolveLoop e (map PID conns) st2 (rangeOrder e (tracked st2))
                   in (ev1 @ ev2 @ ev3, None, st3))))"

subsection \<open>The driver\<close>

text \<open>
  What the \<open>select\<close> of \<open>monitorLoop\<close> receives: a tick of the ticker, with the inputs of the
  cycle it starts, or the cancellation of the context.
\<close>

datatype selected = Tick poll_input | Done

text \<open>
  The \<open>for\<close> loop of \<open>monitorLoop\<close> on a finite sequence of receptions: the events, the state,
  and whether the loop has returned (it returns only on \<open>Done\<close>; at the end of the sequence
  it is waiting in \<open>select\<close>).
\<close>

fun monitorFrom :: "env \<Rightarrow> Config \<Rightarrow> daemon \<Rightarrow> selected list \<Rightarrow> event list \<times> daemon \<times> bool" where
  "monitorFrom e cfg st [] = ([], st, False)"
| "monitorFrom e cfg st (Done # rest) = ([LogDaemonStopped], st, True)"
| "monitorFrom e cfg st (Tick inp # rest) =
     (let (ev1, err, st1) = pollAndAlert e cfg inp st;
          ev1' = ev1 @ (case err of Some x \<Rightarrow> [LogPollingFailed x] | None \<Rightarrow> []);
          (ev2, st2, returned) = monitorFrom e cfg st1 rest
      in (ev1' @ ev2, st2, returned))"

text \<open>\<open>monitorLoop\<close> starts from an empty \<open>tracked\<close> map.\<close>

definition monitorLoop :: "env \<Rightarrow> Config \<Rightarrow> daemon \<Rightarrow> selected list \<Rightarrow> event list \<times> daemon \<times> bool" where
  "monitorLoop e cfg st sel = monitorFrom e cfg (st\<lparr>tracked := []\<rparr>) sel"

subsection \<open>Reading a trace\<close>

text \<open>The backend identifier that an event carries, and whether an event is an alert dispatch.\<close>

fun eventPID :: "event \<Rightarrow> int option" where
  "eventPID (LogIdleDetected p app d) = Some p"
| "eventPID (LogIdleCritical p app d) = Some p"
| "eventPID (IdleTransactionAlert s p app d q) = Some p"
| "eventPID (LogDryRun p app d) = Some p"
| "eventPID (LogAutoTerminating p app d) = Some p"
| "eventPID (TerminateBackend p) = Some p"
| "eventPID (LogTerminateFailed p err) = Some p"
| "eventPID (TerminationAlert p app d r) = Some p"
| "eventPID (LogResolved p app d) = Some p"
| "eventPID (ResolvedAlert p app d) = Some p"
| "eventPID ev = None"

fun isAlert :: "event \<Rightarrow> bool" where
  "isAlert (PoolAlert s u m pct) = True"
| "isAlert (IdleTransactionAlert s p app d q) = True"
| "isAlert (TerminationAlert p app d r) = True"
| "isAlert (ResolvedAlert p app d) = True"
| "isAlert ev = False"

definition alertsFor :: "int \<Rightarrow> event list \<Rightarrow> event list" where
  "alertsFor p evs = filter (\<lambda>ev. isAlert ev \<and> eventPID ev = Some p) evs"

fun isIdleAlert :: "string \<Rightarrow> int \<Rightarrow> event \<Rightarrow> bool" where
  "isIdleAlert severity p (IdleTransactionAlert s q app d qry) = (s = severity \<and> q = p)"
| "isIdleAlert severity p ev = False"

text \<open>The severity and backend identifier of the idle transaction alerts of a trace, in order.\<close>

fun idleAlertOf :: "event \<Rightarrow> (string \<times> int) option" where
  "idleAlertOf (IdleTransactionAlert s p app d q) = Some (s, p)"
| "idleAlertOf ev = None"

definition idleAlerts :: "event list \<Rightarrow> (string \<times> int) list" where
  "idleAlerts evs = List.map_filter idleAlertOf evs"

text \<open>
  The flag of a severity, and how many alerts of that severity a session may still get
  while it stays in the table: none once the flag is set.
\<close>

definition flagOf :: "string \<Rightarrow> trackedIdle \<Rightarrow> bool" where
  "flagOf severity tc = (if severity = SeverityWarning then warningSent tc else criticalSent tc)"

definition credit :: "string \<Rightarrow> int \<Rightarrow> daemon \<Rightarrow> nat" where
  "credit severity p st =
     (case map_of (tracked st) p of
        Some tc \<Rightarrow> (if flagOf severity tc then 0 else 1)
      | None \<Rightarrow> 1)"

definition flagsKept :: "trackedIdle \<Rightarrow> trackedIdle \<Rightarrow> bool" where
  "flagsKept tc tc' =
     ((warningSent tc \<longrightarrow> warningSent tc') \<and> (criticalSent tc \<longrightarrow> criticalSent tc'))"

text \<open>
  A cycle keeps a session present when the list of idle transactions that it fetches, if it
  gets one, has the session's identifier.
\<close>

definition keepsPresent :: "int \<Rightarrow> poll_input \<Rightarrow> bool" where
  "keepsPresent p inp =
     (case idleTransactions inp of Inr conns \<Rightarrow> p \<in> set (map PID conns) | Inl err \<Rightarrow> True)"

text \<open>A sequence of receptions in which every cycle keeps the session present.\<close>

definition alwaysPresent :: "int \<Rightarrow> selected list \<Rightarrow> bool" where
  "alwaysPresent p sel =
     list_all (\<lambda>x. case x of Tick inp \<Rightarrow> keepsPresent p inp | Done \<Rightarrow> True) sel"

text \<open>
  No entry of the table has its critical flag set without its warning flag.
\<close>

definition flagsOrdered :: "daemon \<Rightarrow> bool" where
  "flagsOrdered st = list_all (\<lambda>(k, tc). criticalSent tc \<longrightarrow> warningSent tc) (tracked st)"

text \<open>
  A trace in which every idle transaction alert of a severity other than warning comes after
  a warning alert for the same session, with no resolution of the session in between. The
  first argument lists the sessions warned so far and not resolved since; \<open>warnedAfter\<close> is
  that list at the end of the trace.
\<close>

fun warnedBefore :: "int list \<Rightarrow> event list \<Rightarrow> bool" where
  "warnedBefore ws [] = True"
| "warnedBefore ws (IdleTransactionAlert s p app d q # evs) =
     (if s = SeverityWarning then warnedBefore (p # ws) evs
      else p \<in> set ws \<and> warnedBefore ws evs)"
| "warnedBefore ws (LogResolved p app d # evs) = warnedBefore (removeAll p ws) evs"
| "warnedBefore ws (ev # evs) = warnedBefore ws evs"

fun warnedAfter :: "int list \<Rightarrow> event list \<Rightarrow> int list" where
  "warnedAfter ws [] = ws"
| "warnedAfter ws (IdleTransactionAlert s p app d q # evs) =
     (if s = SeverityWarning then warnedAfter (p # ws) evs else warnedAfter ws evs)"
| "warnedAfter ws (LogResolved p app d # evs) = warnedAfter (removeAll p ws) evs"
| "warnedAfter ws (ev # evs) = warnedAfter ws evs"

text \<open>Every entry whose warning flag is set belongs to a session of the list.\<close>

definition warnedIn :: "int list \<Rightarrow> daemon \<Rightarrow> bool" where
  "warnedIn ws st = list_all (\<lambda>(k, tc). warningSent tc \<longrightarrow> k \<in> set ws) (tracked st)"

text \<open>
  The idle transaction alerts of a trace for one session; the two alerts that a session can
  get, in the order of the loop body; how far the entry of a session has got on them (0 with
  no entry or no flag, 1 with the warning flag only, 2 with the critical flag); and the
  entries with both flags.
\<close>

definition idleAlertsFor :: "int \<Rightarrow> event list \<Rightarrow> (string \<times> int) list" where
  "idleAlertsFor p evs = filter (\<lambda>(s, q). q = p) (idleAlerts evs)"

definition ladder :: "int \<Rightarrow> (string \<times> int) list" where
  "ladder p = [(SeverityWarning, p), (SeverityCritical, p)]"

definition progress :: "daemon \<Rightarrow> int \<Rightarrow> nat" where
  "progress st p =
     (case map_of (tracked st) p of
        None \<Rightarrow> 0
      | Some tc \<Rightarrow> (if criticalSent tc then 2 else if warningSent tc then 1 else 0))"

definition bothSent :: "daemon \<Rightarrow> int \<Rightarrow> bool" where
  "bothSent st p =
     (case map_of (tracked st) p of None \<Rightarrow> False | Some tc \<Rightarrow> warningSent tc \<and> criticalSent tc)"

text \<open>
  The four phases of a cycle that the specification names, by the events that belong to
  them: the pool thresholds (0), the idle evaluation of a session (1), its auto-terminate
  evaluation (2) and the resolution of sessions (3); 4 for the driver's own records.
\<close>

fun phaseOf :: "event \<Rightarrow> nat" where
  "phaseOf (LogPoolCritical u t m) = 0"
| "phaseOf (LogPoolWarning u t m) = 0"
| "phaseOf (PoolAlert s t m u) = 0"
| "phaseOf (LogIdleDetected p app d) = 1"
| "phaseOf (LogIdleCritical p app d) = 1"
| "phaseOf (IdleTransactionAlert s p app d q) = 1"
| "phaseOf (LogDryRun p app d) = 2"
| "phaseOf (LogAutoTerminating p app d) = 2"
| "phaseOf (TerminateBackend p) = 2"
| "phaseOf (LogTerminateFailed p err) = 2"
| "phaseOf (TerminationAlert p app d r) = 2"
| "phaseOf (LogResolved p app d) = 3"
| "phaseOf (ResolvedAlert p app d) = 3"
| "phaseOf (LogPollingFailed err) = 4"
| "phaseOf LogDaemonStopped = 4"

text \<open>
  The three parts of \<open>pollAndAlert\<close> after the fetches: the pool thresholds (0), the loop
  over the sessions (1) and the loop over the table (2); 3 for the driver's own records.
\<close>

fun stageOf :: "event \<Rightarrow> nat" where
  "stageOf (LogPoolCritical u t m) = 0"
| "stageOf (LogPoolWarning u t m) = 0"
| "stageOf (PoolAlert s t m u) = 0"
| "stageOf (LogResolved p app d) = 2"
| "stageOf (ResolvedAlert p app d) = 2"
| "stageOf (LogPollingFailed err) = 3"
| "stageOf LogDaemonStopped = 3"
| "stageOf ev = 1"

text \<open>
  The branch that the pool check took, read off its log record, and the severity of the
  pool alerts of a trace.
\<close>

fun poolLevelOf :: "event \<Rightarrow> string option" where
  "poolLevelOf (LogPoolCritical u t m) = Some SeverityCritical"
| "poolLevelOf (LogPoolWarning u t m) = Some SeverityWarning"
| "poolLevelOf ev = None"

fun poolAlertOf :: "event \<Rightarrow> string option" where
  "poolAlertOf (PoolAlert s t m u) = Some s"
| "poolAlertOf ev = None"

definition poolLevels :: "event list \<Rightarrow> string list" where
  "poolLevels evs = List.map_filter poolLevelOf evs"

definition poolAlerts :: "event list \<Rightarrow> string list" where
  "poolAlerts evs = List.map_filter poolAlertOf evs"

subsection \<open>Example data\<close>

text \<open>\<open>config.DefaultConfig\<close>, and the same with a database host, which \<open>Validate\<close> accepts.\<close>

definition DefaultConfig :: Config where
  "DefaultConfig =
     \<lparr>ConnectionURL = [], ConnectionHost = [],
      IdleWarning = 30 * Second, IdleCritical = 2 * Minute,
      WarningPercent = 75, CriticalPercent = 90,
      AlertsCooldown = 5 * Minute,
      AutoTermEnabled = False, AutoTermAfter = 5 * Minute, AutoTermDryRun = True,
      ExcludeApps = [''pguard'', ''pg_dump''], ExcludeIPs = [], ProtectedApps = []\<rparr>"

definition localConfig :: Config where
  "localConfig = DefaultConfig\<lparr>ConnectionHost := ''localhost''\<rparr>"

text \<open>
  The clock \<open>s\<close> seconds after the start of the daemon, and a timestamp of the database
  for the same instant, which has no monotonic reading.
\<close>

definition clockAt :: "int \<Rightarrow> Time" where
  "clockAt s = \<lparr>wallNs = 63900000000000000000 + s * Second, monoNs = Some (s * Second)\<rparr>"

definition stampAt :: "int \<Rightarrow> Time" where
  "stampAt s = \<lparr>wallNs = 63900000000000000000 + s * Second, monoNs = None\<rparr>"

text \<open>
  An environment with a given clock for the examples: the quotient is exact, the query is
  cut to its first characters and the map is visited in the order of the list. On the pools
  and the queries of the examples these give the values of the code.
\<close>

definition envWith :: "(nat \<Rightarrow> Time) \<Rightarrow> env" where
  "envWith c = \<lparr>clock = c,
                usageOf = (\<lambda>total available. real_of_int total / real_of_int available * 100),
                TruncateQuery = (\<lambda>q n. take (nat n) q),
                rangeOrder = (\<lambda>entries. entries)\<rparr>"

definition quietPool :: PoolStats where
  "quietPool = \<lparr>MaxConnections = 100, ReservedSuperuser = 3, TotalConnections = 25,
                 ActiveConnections = 10, IdleConnections = 12, IdleInTransaction = 3,
                 AvailableConnections = 72\<rparr>"

definition fullPool :: PoolStats where
  "fullPool = \<lparr>MaxConnections = 100, ReservedSuperuser = 3, TotalConnections = 97,
                ActiveConnections = 90, IdleConnections = 4, IdleInTransaction = 3,
                AvailableConnections = 0\<rparr>"

text \<open>A session that entered its state \<open>s\<close> seconds before the start of the daemon.\<close>

definition sessionSince :: "int \<Rightarrow> string \<Rightarrow> int \<Rightarrow> Connection" where
  "sessionSince p app s =
     \<lparr>PID = p, ApplicationName = app, ClientAddr = ''192.168.1.11'',
      StateChange = stampAt (- s), Query = ''SELECT 1''\<rparr>"

definition worker :: Connection where
  "worker = sessionSince 1002 ''worker'' 45"

definition cycleWith :: "Connection list \<Rightarrow> poll_input" where
  "cycleWith conns = \<lparr>poolStats = Inr quietPool, idleTransactions = Inr conns,
                       terminate = (\<lambda>p. Inr True)\<rparr>"

text \<open>
  The clock of the scenario: the first cycle (two readings) at the start, the second cycle
  (one reading) 90 seconds later, and every later reading \<open>t3\<close> seconds after the start.
\<close>

definition scenarioEnv :: "int \<Rightarrow> env" where
  "scenarioEnv t3 =
     envWith (\<lambda>k. if k < 2 then clockAt 0 else if k < 3 then clockAt 90 else clockAt t3)"

definition workerTracked :: "bool \<Rightarrow> bool \<Rightarrow> trackedIdle" where
  "workerTracked w c = \<lparr>pid = 1002, appName = ''worker'', query = ''SELECT 1'',
                         firstSeen = clockAt 0, warningSent = w, criticalSent = c\<rparr>"

definition afterCycle1 :: daemon where
  "afterCycle1 = \<lparr>cooldown = freshCooldown, tracked = [(1002, workerTracked True False)], ticks = 2\<rparr>"

definition afterCycle2 :: daemon where
  "afterCycle2 = \<lparr>cooldown = freshCooldown, tracked = [(1002, workerTracked True True)], ticks = 3\<rparr>"

definition afterCycle3 :: daemon where
  "afterCycle3 = \<lparr>cooldown = freshCooldown, tracked = [], ticks = 4\<rparr>"

text \<open>
  A clock that stands still, a configuration that terminates for real, a cycle whose second
  fetch fails while the pool is full, a cycle whose first fetch fails, two sessions idle for
  ten minutes and one idle for three.
\<close>

definition steadyEnv :: env where
  "steadyEnv = envWith (\<lambda>k. clockAt 0)"

definition terminatingConfig :: Config where
  "terminatingConfig = localConfig\<lparr>AutoTermEnabled := True, AutoTermDryRun := False\<rparr>"

definition failingCycle :: poll_input where
  "failingCycle = \<lparr>poolStats = Inr fullPool,
                    idleTransactions = Inl (QueryError ''context deadline exceeded''),
                    terminate = (\<lambda>p. Inr True)\<rparr>"

definition unreachableCycle :: poll_input where
  "unreachableCycle = \<lparr>poolStats = Inl (QueryError ''connection refused''),
                        idleTransactions = Inl (QueryError ''connection refused''),
                        terminate = (\<lambda>p. Inr True)\<rparr>"

definition twoBatches :: "Connection list" where
  "twoBatches = [sessionSince 2001 ''batch-a'' 600, sessionSince 2002 ''batch-b'' 600]"

definition batchJob :: Connection where
  "batchJob = sessionSince 1003 ''batch-job'' 180"

text \<open>The configuration of the auto-terminate policy in the tests of \<open>shouldTerminate\<close>.\<close>

definition policyConfig :: Config where
  "policyConfig =
     localConfig\<lparr>AutoTermEnabled := True,
       ExcludeApps := [''pg_dump'', ''migration-runner''],
       ExcludeIPs := [''10.0.0.1'', ''10.0.0.2''],
       ProtectedApps :=
         [\<lparr>Name = ''critical-service'', MinIdleDuration = 10 * Minute, RequireConfirmation = False\<rparr>,
          \<lparr>Name = ''important-service'', MinIdleDuration = 5 * Minute, RequireConfirmation = True\<rparr>]\<rparr>"

section \<open>Properties\<close>

subsection \<open>The scenario, cycle by cycle\<close>

lemma scenario_cycle1:
  "pollAndAlert (scenarioEnv t3) localConfig (cycleWith [worker]) startDaemon =
     ([LogIdleDetected 1002 ''worker'' (45 * Second),
       IdleTransactionAlert SeverityWarning 1002 ''worker'' (45 * Second) ''SELECT 1''],
      None, afterCycle1)"
  by code_simp

lemma scenario_cycle2:
  "pollAndAlert (scenarioEnv t3) localConfig (cycleWith [worker]) afterCycle1 =
     ([LogIdleCritical 1002 ''worker'' (135 * Second),
       IdleTransactionAlert SeverityCritical 1002 ''worker'' (135 * Second) ''SELECT 1''],
      None, afterCycle2)"
  by code_simp

subsection \<open>The cooldown gate\<close>

lemma Sub_zeroTime: "Sub now zeroTime = saturate (wallNs now)"
  by (simp add: Sub_def zeroTime_def split: option.splits)

lemma poolAlertCalls_keeps_warning:
  "list_all (\<lambda>(n, s, c). s \<noteq> SeverityWarning) calls \<Longrightarrow>
   lastPoolWarning (poolAlertCalls a calls) = lastPoolWarning a"
  by (induction calls arbitrary: a) (auto simp: canSendPoolAlert_def)

lemma poolAlertCalls_keeps_critical:
  "list_all (\<lambda>(n, s, c). s \<noteq> SeverityCritical) calls \<Longrightarrow>
   lastPoolCritical (poolAlertCalls a calls) = lastPoolCritical a"
  by (induction calls arbitrary: a) (auto simp: canSendPoolAlert_def)

text \<open>
  C3. A call of the gate for warning (critical) returns true exactly when the time since the
  stored last warning (critical) timestamp is at least the cooldown duration; it then stores
  the clock reading as that timestamp, and otherwise leaves the gate as it was. A call for one
  severity neither changes the other severity's timestamp nor depends on it.
\<close>

theorem canSendPoolAlert_gate:
  "(fst (canSendPoolAlert now a SeverityWarning cd) \<longleftrightarrow> cd \<le> Sub now (lastPoolWarning a)) \<and>
   (fst (canSendPoolAlert now a SeverityCritical cd) \<longleftrightarrow> cd \<le> Sub now (lastPoolCritical a)) \<and>
   snd (canSendPoolAlert now a SeverityWarning cd) =
     (if cd \<le> Sub now (lastPoolWarning a) then a\<lparr>lastPoolWarning := now\<rparr> else a) \<and>
   snd (canSendPoolAlert now a SeverityCritical cd) =
     (if cd \<le> Sub now (lastPoolCritical a) then a\<lparr>lastPoolCritical := now\<rparr> else a) \<and>
   lastPoolCritical (snd (canSendPoolAlert now a SeverityWarning cd)) = lastPoolCritical a \<and>
   lastPoolWarning (snd (canSendPoolAlert now a SeverityCritical cd)) = lastPoolWarning a \<and>
   fst (canSendPoolAlert now (a\<lparr>lastPoolCritical := t\<rparr>) SeverityWarning cd) =
     fst (canSendPoolAlert now a SeverityWarning cd) \<and>
   fst (canSendPoolAlert now (a\<lparr>lastPoolWarning := t\<rparr>) SeverityCritical cd) =
     fst (canSendPoolAlert now a SeverityCritical cd)"
  by (simp add: canSendPoolAlert_def SeverityWarning_def SeverityCritical_def)

text \<open>
  With a cooldown of five minutes: a critical alert passes on a fresh gate, a second one
  299 seconds later does not, one 300 seconds later does, and a warning alert one second after
  the critical one passes.
\<close>

theorem canSendPoolAlert_gate_witness:
  "fst (canSendPoolAlert (clockAt 0) freshCooldown SeverityCritical (5 * Minute)) \<and>
   snd (canSendPoolAlert (clockAt 0) freshCooldown SeverityCritical (5 * Minute)) =
     freshCooldown\<lparr>lastPoolCritical := clockAt 0\<rparr> \<and>
   \<not> fst (canSendPoolAlert (clockAt 299) (freshCooldown\<lparr>lastPoolCritical := clockAt 0\<rparr>)
            SeverityCritical (5 * Minute)) \<and>
   fst (canSendPoolAlert (clockAt 300) (freshCooldown\<lparr>lastPoolCritical := clockAt 0\<rparr>)
          SeverityCritical (5 * Minute)) \<and>
   fst (canSendPoolAlert (clockAt 1) (freshCooldown\<lparr>lastPoolCritical := clockAt 0\<rparr>)
          SeverityWarning (5 * Minute))"
proof -
  let ?a = "freshCooldown\<lparr>lastPoolCritical := clockAt 0\<rparr>"
  have h0: "5 * Minute \<le> Sub (clockAt 0) (lastPoolCritical freshCooldown)" by code_simp
  have h1: "\<not> 5 * Minute \<le> Sub (clockAt 299) (lastPoolCritical ?a)" by code_simp
  have h2: "5 * Minute \<le> Sub (clockAt 300) (lastPoolCritical ?a)" by code_simp
  have h3: "5 * Minute \<le> Sub (clockAt 1) (lastPoolWarning ?a)" by code_simp
  from h0 canSendPoolAlert_gate [of "clockAt 0" freshCooldown "5 * Minute"]
  have a: "fst (canSendPoolAlert (clockAt 0) freshCooldown SeverityCritical (5 * Minute))"
    and b: "snd (canSendPoolAlert (clockAt 0) freshCooldown SeverityCritical (5 * Minute)) = ?a"
    by simp_all
  from h1 canSendPoolAlert_gate [of "clockAt 299" ?a "5 * Minute"]
  have c: "\<not> fst (canSendPoolAlert (clockAt 299) ?a SeverityCritical (5 * Minute))" by blast
  from h2 canSendPoolAlert_gate [of "clockAt 300" ?a "5 * Minute"]
  have d: "fst (canSendPoolAlert (clockAt 300) ?a SeverityCritical (5 * Minute))" by blast
  from h3 canSendPoolAlert_gate [of "clockAt 1" ?a "5 * Minute"]
  have e: "fst (canSendPoolAlert (clockAt 1) ?a SeverityWarning (5 * Minute))" by blast
  from a b c d e show ?thesis by blast
qed

text \<open>
  C10. On the fresh gate both timestamps are the zero time. After any calls for other
  severities, the first call for warning (critical) returns true and stores the clock reading
  whenever the cooldown duration does not exceed the time since the zero time, which is the
  saturated wall clock reading. A call with any other severity string returns false and
  leaves the gate unchanged.
\<close>

theorem first_pool_alert_passes:
  "((severity = SeverityWarning \<or> severity = SeverityCritical) \<and>
    list_all (\<lambda>(n, s, c). s \<noteq> severity) calls \<and>
    cd \<le> Sub now zeroTime \<longrightarrow>
      canSendPoolAlert now (poolAlertCalls freshCooldown calls) severity cd =
        (True, (if severity = SeverityWarning
                then (poolAlertCalls freshCooldown calls)\<lparr>lastPoolWarning := now\<rparr>
                else (poolAlertCalls freshCooldown calls)\<lparr>lastPoolCritical := now\<rparr>))) \<and>
   (severity \<noteq> SeverityWarning \<and> severity \<noteq> SeverityCritical \<longrightarrow>
      canSendPoolAlert now a severity cd = (False, a)) \<and>
   lastPoolWarning freshCooldown = zeroTime \<and> lastPoolCritical freshCooldown = zeroTime \<and>
   Sub now zeroTime = saturate (wallNs now)"
proof -
  let ?g = "poolAlertCalls freshCooldown calls"
  have first: "canSendPoolAlert now ?g severity cd =
        (True, (if severity = SeverityWarning then ?g\<lparr>lastPoolWarning := now\<rparr>
                else ?g\<lparr>lastPoolCritical := now\<rparr>))"
    if sev: "severity = SeverityWarning \<or> severity = SeverityCritical"
      and other: "list_all (\<lambda>(n, s, c). s \<noteq> severity) calls"
      and cd: "cd \<le> Sub now zeroTime"
    using sev
  proof
    assume w: "severity = SeverityWarning"
    with other have "lastPoolWarning ?g = zeroTime"
      using poolAlertCalls_keeps_warning [of calls freshCooldown] by (simp add: freshCooldown_def)
    with w cd show ?thesis by (simp add: canSendPoolAlert_def)
  next
    assume c: "severity = SeverityCritical"
    with other have "lastPoolCritical ?g = zeroTime"
      using poolAlertCalls_keeps_critical [of calls freshCooldown] by (simp add: freshCooldown_def)
    with c cd show ?thesis
      by (simp add: canSendPoolAlert_def SeverityWarning_def SeverityCritical_def)
  qed
  have none: "canSendPoolAlert now a severity cd = (False, a)"
    if "severity \<noteq> SeverityWarning \<and> severity \<noteq> SeverityCritical"
    using that by (simp add: canSendPoolAlert_def)
  have z: "lastPoolWarning freshCooldown = zeroTime \<and> lastPoolCritical freshCooldown = zeroTime"
    by (simp add: freshCooldown_def)
  from first none z Sub_zeroTime [of now] show ?thesis by blast
qed

text \<open>
  On a fresh gate that has seen a warning call and a call with the severity \<open>info\<close>, the
  first critical call passes, even with the longest duration as cooldown; the call with
  \<open>info\<close> is refused.
\<close>

theorem first_pool_alert_passes_witness:
  "list_all (\<lambda>(n, s, c). s \<noteq> SeverityCritical)
     [(clockAt 0, SeverityWarning, 5 * Minute), (clockAt 5, ''info'', 5 * Minute)] \<and>
   maxDuration \<le> Sub (clockAt 10) zeroTime \<and>
   fst (canSendPoolAlert (clockAt 10)
          (poolAlertCalls freshCooldown
             [(clockAt 0, SeverityWarning, 5 * Minute), (clockAt 5, ''info'', 5 * Minute)])
          SeverityCritical maxDuration) \<and>
   canSendPoolAlert (clockAt 5) freshCooldown ''info'' (5 * Minute) = (False, freshCooldown)"
proof -
  let ?calls = "[(clockAt 0, SeverityWarning, 5 * Minute), (clockAt 5, ''info'', 5 * Minute)]"
  have h1: "list_all (\<lambda>(n, s, c). s \<noteq> SeverityCritical) ?calls" by code_simp
  have h2: "maxDuration \<le> Sub (clockAt 10) zeroTime" by code_simp
  have h3: "''info'' \<noteq> SeverityWarning \<and> ''info'' \<noteq> SeverityCritical"
    by (simp add: SeverityWarning_def SeverityCritical_def)
  from h1 h2 first_pool_alert_passes [of SeverityCritical ?calls maxDuration "clockAt 10"]
  have a: "fst (canSendPoolAlert (clockAt 10) (poolAlertCalls freshCooldown ?calls)
                  SeverityCritical maxDuration)"
    by simp
  from h3 first_pool_alert_passes [of "''info''" "[]" "5 * Minute" "clockAt 5" freshCooldown]
  have b: "canSendPoolAlert (clockAt 5) freshCooldown ''info'' (5 * Minute) = (False, freshCooldown)"
    by blast
  from h1 h2 a b show ?thesis by blast
qed

subsection \<open>The auto-terminate policy\<close>

lemma protectedAllows_find:
  "protectedAllows ps app d =
     (case find (\<lambda>p. Name p = app) ps of
        None \<Rightarrow> True
      | Some p \<Rightarrow> \<not> RequireConfirmation p \<and> MinIdleDuration p \<le> d)"
  by (induction ps) auto

text \<open>
  C6. The policy is asked only when auto-terminate is enabled and the idle duration is at
  least the global threshold (a terminate call also needs dry-run to be off). A session whose
  application is excluded is not eligible; else one whose client address is excluded is not
  eligible; else, when a protected application has the session's application name, the first
  such entry decides: not eligible when it requires confirmation, otherwise eligible exactly
  when the idle duration is at least the entry's minimum; any other session is eligible.
\<close>

theorem shouldTerminate_first_match:
  "(ApplicationName conn \<in> set (ExcludeApps cfg) \<longrightarrow> \<not> shouldTerminate cfg conn d) \<and>
   (ApplicationName conn \<notin> set (ExcludeApps cfg) \<and> ClientAddr conn \<in> set (ExcludeIPs cfg) \<longrightarrow>
      \<not> shouldTerminate cfg conn d) \<and>
   (ApplicationName conn \<notin> set (ExcludeApps cfg) \<and> ClientAddr conn \<notin> set (ExcludeIPs cfg) \<longrightarrow>
      (case find (\<lambda>p. Name p = ApplicationName conn) (ProtectedApps cfg) of
         Some p \<Rightarrow> shouldTerminate cfg conn d = (\<not> RequireConfirmation p \<and> MinIdleDuration p \<le> d)
       | None \<Rightarrow> shouldTerminate cfg conn d)) \<and>
   (autoTerminate cfg tb conn d \<noteq> [] \<longleftrightarrow>
      AutoTermEnabled cfg \<and> AutoTermAfter cfg \<le> d \<and> shouldTerminate cfg conn d) \<and>
   (TerminateBackend (PID conn) \<in> set (autoTerminate cfg tb conn d) \<longleftrightarrow>
      AutoTermEnabled cfg \<and> AutoTermAfter cfg \<le> d \<and> shouldTerminate cfg conn d \<and>
      \<not> AutoTermDryRun cfg)"
  by (auto simp: shouldTerminate_def protectedAllows_find autoTerminate_def
        split: option.splits sum.splits)

text \<open>
  The cases of the repository's test of \<open>shouldTerminate\<close>: \<open>pg_dump\<close> is excluded; the
  protected \<open>critical-service\<close> (minimum ten minutes) is eligible after fifteen minutes and
  not after three; \<open>important-service\<close> requires confirmation and is not eligible after an
  hour; an unlisted application is eligible.
\<close>

theorem shouldTerminate_first_match_witness:
  "\<not> shouldTerminate policyConfig (sessionSince 1 ''pg_dump'' 300) (5 * Minute) \<and>
   \<not> shouldTerminate policyConfig (sessionSince 2 ''critical-service'' 180) (3 * Minute) \<and>
   shouldTerminate policyConfig (sessionSince 2 ''critical-service'' 900) (15 * Minute) \<and>
   \<not> shouldTerminate policyConfig (sessionSince 3 ''important-service'' 3600) (60 * Minute) \<and>
   shouldTerminate policyConfig (sessionSince 4 ''webapp'' 300) (5 * Minute)"
proof -
  have a: "ApplicationName (sessionSince 1 ''pg_dump'' 300) \<in> set (ExcludeApps policyConfig)"
    by code_simp
  have n: "ApplicationName (sessionSince p ''critical-service'' s) \<notin> set (ExcludeApps policyConfig) \<and>
           ClientAddr (sessionSince p ''critical-service'' s) \<notin> set (ExcludeIPs policyConfig)"
          "ApplicationName (sessionSince p ''important-service'' s) \<notin> set (ExcludeApps policyConfig) \<and>
           ClientAddr (sessionSince p ''important-service'' s) \<notin> set (ExcludeIPs policyConfig)"
          "ApplicationName (sessionSince p ''webapp'' s) \<notin> set (ExcludeApps policyConfig) \<and>
           ClientAddr (sessionSince p ''webapp'' s) \<notin> set (ExcludeIPs policyConfig)"
    for p s
    by (simp_all add: sessionSince_def policyConfig_def)
  have f1: "find (\<lambda>p. Name p = ApplicationName (sessionSince q ''critical-service'' s))
              (ProtectedApps policyConfig) =
            Some \<lparr>Name = ''critical-service'', MinIdleDuration = 10 * Minute, RequireConfirmation = False\<rparr>"
    for q s by (simp add: sessionSince_def policyConfig_def)
  have f2: "find (\<lambda>p. Name p = ApplicationName (sessionSince q ''important-service'' s))
              (ProtectedApps policyConfig) =
            Some \<lparr>Name = ''important-service'', MinIdleDuration = 5 * Minute, RequireConfirmation = True\<rparr>"
    for q s by (simp add: sessionSince_def policyConfig_def)
  have f3: "find (\<lambda>p. Name p = ApplicationName (sessionSince q ''webapp'' s))
              (ProtectedApps policyConfig) = None"
    for q s by (simp add: sessionSince_def policyConfig_def)
  from a shouldTerminate_first_match [of "sessionSince 1 ''pg_dump'' 300" policyConfig "5 * Minute"]
  have 1: "\<not> shouldTerminate policyConfig (sessionSince 1 ''pg_dump'' 300) (5 * Minute)" by blast
  from n(1) [of 2 180] f1 [of 2 180]
    shouldTerminate_first_match [of "sessionSince 2 ''critical-service'' 180" policyConfig "3 * Minute"]
  have 2: "\<not> shouldTerminate policyConfig (sessionSince 2 ''critical-service'' 180) (3 * Minute)"
    by (simp add: Minute_def Second_def)
  from n(1) [of 2 900] f1 [of 2 900]
    shouldTerminate_first_match [of "sessionSince 2 ''critical-service'' 900" policyConfig "15 * Minute"]
  have 3: "shouldTerminate policyConfig (sessionSince 2 ''critical-service'' 900) (15 * Minute)"
    by (simp add: Minute_def Second_def)
  from n(2) [of 3 3600] f2 [of 3 3600]
    shouldTerminate_first_match [of "sessionSince 3 ''important-service'' 3600" policyConfig "60 * Minute"]
  have 4: "\<not> shouldTerminate policyConfig (sessionSince 3 ''important-service'' 3600) (60 * Minute)"
    by simp
  from n(3) [of 4 300] f3 [of 4 300]
    shouldTerminate_first_match [of "sessionSince 4 ''webapp'' 300" policyConfig "5 * Minute"]
  have 5: "shouldTerminate policyConfig (sessionSince 4 ''webapp'' 300) (5 * Minute)"
    by simp
  from 1 2 3 4 5 show ?thesis by blast
qed


subsection \<open>The body of the session loop\<close>

lemma sev_distinct: "SeverityWarning \<noteq> SeverityCritical"
  by (simp add: SeverityWarning_def SeverityCritical_def)

lemma autoTerminate_no_idle: "filter (isIdleAlert s p) (autoTerminate cfg tb conn d) = []"
  by (simp add: autoTerminate_def split: sum.splits)

lemma processConn_eq:
  "processConn e cfg tb st conn =
     (let d = IdleDuration (clock e (ticks st)) conn;
          tr = trackConn e (st\<lparr>ticks := Suc (ticks st)\<rparr>) conn;
          cw = checkWarning cfg conn d (fst tr);
          cc = checkCritical cfg conn d (snd cw)
      in (fst cw @ fst cc @ autoTerminate cfg tb conn d,
          (snd tr)\<lparr>tracked := AList.update (PID conn) (snd cc) (tracked (snd tr))\<rparr>))"
  by (simp add: processConn_def Let_def case_prod_beta)

lemma trackConn_fst:
  "fst (trackConn e st conn) =
     (case map_of (tracked st) (PID conn) of
        Some tc \<Rightarrow> tc
      | None \<Rightarrow> \<lparr>pid = PID conn, appName = ApplicationName conn,
                  query = TruncateQuery e (Query conn) 100, firstSeen = clock e (ticks st),
                  warningSent = False, criticalSent = False\<rparr>)"
  by (simp add: trackConn_def Let_def split: option.splits)

lemma trackConn_map:
  "map_of (tracked (snd (trackConn e st conn))) =
     (map_of (tracked st))(PID conn \<mapsto> fst (trackConn e st conn))"
  by (auto simp: trackConn_def Let_def AList.update_conv' split: option.splits)

lemma processConn_map:
  "map_of (tracked (snd (processConn e cfg tb st conn))) =
     (map_of (tracked st))(PID conn \<mapsto>
        snd (checkCritical cfg conn (IdleDuration (clock e (ticks st)) conn)
          (snd (checkWarning cfg conn (IdleDuration (clock e (ticks st)) conn)
             (fst (trackConn e (st\<lparr>ticks := Suc (ticks st)\<rparr>) conn))))))"
  by (simp add: processConn_eq Let_def AList.update_conv' trackConn_map)

lemma checkWarning_count:
  "length (filter (isIdleAlert s p) (fst (checkWarning cfg conn d tc))) =
     (if s = SeverityWarning \<and> p = PID conn \<and> \<not> warningSent tc \<and> IdleWarning cfg \<le> d then 1 else 0)"
  by (auto simp: checkWarning_def)

lemma checkWarning_flags:
  "warningSent (snd (checkWarning cfg conn d tc)) = (warningSent tc \<or> IdleWarning cfg \<le> d)"
  "criticalSent (snd (checkWarning cfg conn d tc)) = criticalSent tc"
  by (auto simp: checkWarning_def)

lemma checkCritical_count:
  "length (filter (isIdleAlert s p) (fst (checkCritical cfg conn d tc))) =
     (if s = SeverityCritical \<and> p = PID conn \<and> \<not> criticalSent tc \<and> IdleCritical cfg \<le> d then 1 else 0)"
  by (auto simp: checkCritical_def)

lemma checkCritical_flags:
  "criticalSent (snd (checkCritical cfg conn d tc)) = (criticalSent tc \<or> IdleCritical cfg \<le> d)"
  "warningSent (snd (checkCritical cfg conn d tc)) = warningSent tc"
  by (auto simp: checkCritical_def)

lemma processConn_count:
  "length (filter (isIdleAlert s p) (fst (processConn e cfg tb st conn))) =
     length (filter (isIdleAlert s p) (fst (checkWarning cfg conn (IdleDuration (clock e (ticks st)) conn)
             (fst (trackConn e (st\<lparr>ticks := Suc (ticks st)\<rparr>) conn))))) +
     length (filter (isIdleAlert s p) (fst (checkCritical cfg conn (IdleDuration (clock e (ticks st)) conn)
          (snd (checkWarning cfg conn (IdleDuration (clock e (ticks st)) conn)
             (fst (trackConn e (st\<lparr>ticks := Suc (ticks st)\<rparr>) conn)))))))"
  by (simp add: processConn_eq Let_def autoTerminate_no_idle)

lemma processConn_credit:
  assumes "s = SeverityWarning \<or> s = SeverityCritical"
  shows "length (filter (isIdleAlert s p) (fst (processConn e cfg tb st conn)))
           + credit s p (snd (processConn e cfg tb st conn)) \<le> credit s p st"
proof (cases "p = PID conn")
  case False
  then show ?thesis
    by (simp add: processConn_count checkWarning_count checkCritical_count credit_def processConn_map)
next
  case True
  let ?tc = "fst (trackConn e (st\<lparr>ticks := Suc (ticks st)\<rparr>) conn)"
  have c0: "credit s p st = (if flagOf s ?tc then 0 else 1)"
    using True by (simp add: credit_def trackConn_fst flagOf_def split: option.splits)
  have c1: "credit s p (snd (processConn e cfg tb st conn)) =
      (if flagOf s (snd (checkCritical cfg conn (IdleDuration (clock e (ticks st)) conn)
          (snd (checkWarning cfg conn (IdleDuration (clock e (ticks st)) conn) ?tc)))) then 0 else 1)"
    using True by (simp add: credit_def processConn_map)
  from assms show ?thesis
  proof
    assume "s = SeverityWarning"
    then show ?thesis
      unfolding c0 c1 using True sev_distinct
      by (simp add: processConn_count checkWarning_count checkCritical_count
            flagOf_def checkWarning_flags checkCritical_flags)
  next
    assume "s = SeverityCritical"
    then show ?thesis
      unfolding c0 c1 using True sev_distinct
      by (simp add: processConn_count checkWarning_count checkCritical_count
            flagOf_def checkWarning_flags checkCritical_flags)
  qed
qed

lemma processConn_flags:
  "map_of (tracked st) p = Some tc \<Longrightarrow>
   \<exists>tc'. map_of (tracked (snd (processConn e cfg tb st conn))) p = Some tc' \<and> flagsKept tc tc'"
  by (cases "p = PID conn")
     (simp_all add: processConn_map trackConn_fst flagsKept_def checkWarning_flags checkCritical_flags)

lemma processConn_other:
  "p \<noteq> PID conn \<Longrightarrow> map_of (tracked (snd (processConn e cfg tb st conn))) p = map_of (tracked st) p"
  by (simp add: processConn_map)

lemma processConn_ticks: "ticks st \<le> ticks (snd (processConn e cfg tb st conn))"
  by (simp add: processConn_eq Let_def trackConn_def split: option.splits)

lemma processConn_distinct:
  "distinct (map fst (tracked st)) \<Longrightarrow> distinct (map fst (tracked (snd (processConn e cfg tb st conn))))"
  by (simp add: processConn_eq Let_def trackConn_def AList.distinct_update split: option.splits)

subsection \<open>One-shot alerts of a session\<close>

lemma processConns_credit:
  assumes "s = SeverityWarning \<or> s = SeverityCritical"
  shows "length (filter (isIdleAlert s p) (fst (processConns e cfg tb st conns)))
           + credit s p (snd (processConns e cfg tb st conns)) \<le> credit s p st"
proof (induction conns arbitrary: st)
  case Nil
  show ?case by simp
next
  case (Cons c cs)
  obtain ev1 st1 where a: "processConn e cfg tb st c = (ev1, st1)" by (cases "processConn e cfg tb st c")
  obtain ev2 st2 where b: "processConns e cfg tb st1 cs = (ev2, st2)" by (cases "processConns e cfg tb st1 cs")
  from processConn_credit [OF assms, of p e cfg tb st c] a
  have 1: "length (filter (isIdleAlert s p) ev1) + credit s p st1 \<le> credit s p st" by simp
  from Cons.IH [of st1] b
  have 2: "length (filter (isIdleAlert s p) ev2) + credit s p st2 \<le> credit s p st1" by simp
  from 1 2 a b show ?case by simp
qed


lemma poolCheck_tracked: "tracked (snd (poolCheck e cfg stats st)) = tracked st"
  by (simp add: poolCheck_def Let_def split: prod.splits)

lemma poolCheck_no_idle: "filter (isIdleAlert s p) (fst (poolCheck e cfg stats st)) = []"
  by (simp add: poolCheck_def Let_def split: prod.splits)

lemma resolveLoop_no_idle: "filter (isIdleAlert s p) (fst (resolveLoop e seen st entries)) = []"
  by (induction entries arbitrary: st) (auto simp: Let_def case_prod_beta)

lemma resolveLoop_map_of:
  "map_of (tracked (snd (resolveLoop e seen st entries))) q =
     (if q \<in> fst ` set entries \<and> q \<notin> set seen then None else map_of (tracked st) q)"
proof (induction entries arbitrary: st)
  case Nil
  show ?case by simp
next
  case (Cons x xs)
  obtain k tc where x: "x = (k, tc)" by (cases x)
  show ?case
    by (auto simp: x Let_def case_prod_beta Cons.IH AList.delete_conv')
qed

lemma credit_cong: "map_of (tracked st') p = map_of (tracked st) p \<Longrightarrow> credit s p st' = credit s p st"
  by (simp add: credit_def)

lemma pollAndAlert_credit:
  assumes "s = SeverityWarning \<or> s = SeverityCritical" and "keepsPresent p inp"
  shows "length (filter (isIdleAlert s p) (fst (pollAndAlert e cfg inp st)))
           + credit s p (snd (snd (pollAndAlert e cfg inp st))) \<le> credit s p st"
proof (cases "poolStats inp")
  case (Inl err)
  then show ?thesis by (simp add: pollAndAlert_def)
next
  case (Inr stats)
  obtain ev1 st1 where a: "poolCheck e cfg stats st = (ev1, st1)" by (cases "poolCheck e cfg stats st")
  from a poolCheck_tracked [of e cfg stats st] have t1: "tracked st1 = tracked st" by simp
  from a poolCheck_no_idle [of s p e cfg stats st] have n1: "filter (isIdleAlert s p) ev1 = []" by simp
  from t1 have c1: "credit s p st1 = credit s p st" by (simp add: credit_def)
  show ?thesis
  proof (cases "idleTransactions inp")
    case (Inl err)
    with Inr a n1 c1 show ?thesis by (simp add: pollAndAlert_def)
  next
    case (Inr conns)
    obtain ev2 st2 where b: "processConns e cfg (terminate inp) st1 conns = (ev2, st2)"
      by (cases "processConns e cfg (terminate inp) st1 conns")
    obtain ev3 st3 where c: "resolveLoop e (map PID conns) st2 (rangeOrder e (tracked st2)) = (ev3, st3)"
      by (cases "resolveLoop e (map PID conns) st2 (rangeOrder e (tracked st2))")
    from processConns_credit [OF assms(1), of p e cfg "terminate inp" st1 conns] b
    have 2: "length (filter (isIdleAlert s p) ev2) + credit s p st2 \<le> credit s p st1" by simp
    from assms(2) Inr have "p \<in> set (map PID conns)" by (simp add: keepsPresent_def)
    with resolveLoop_map_of [of e "map PID conns" st2 "rangeOrder e (tracked st2)" p] c
    have "map_of (tracked st3) p = map_of (tracked st2) p" by simp
    then have 3: "credit s p st3 = credit s p st2" by (rule credit_cong)
    from c resolveLoop_no_idle [of s p e "map PID conns" st2 "rangeOrder e (tracked st2)"]
    have n3: "filter (isIdleAlert s p) ev3 = []" by simp
    from \<open>poolStats inp = Inr stats\<close> Inr a b c n1 n3 2 3 c1 show ?thesis
      by (simp add: pollAndAlert_def)
  qed
qed

lemma monitorFrom_credit:
  assumes "s = SeverityWarning \<or> s = SeverityCritical" and "alwaysPresent p sel"
  shows "length (filter (isIdleAlert s p) (fst (monitorFrom e cfg st sel))) \<le> credit s p st"
  using assms(2)
proof (induction sel arbitrary: st)
  case Nil
  show ?case by simp
next
  case (Cons x xs)
  show ?case
  proof (cases x)
    case Done
    then show ?thesis by simp
  next
    case (Tick inp)
    obtain ev1 err st1 where a: "pollAndAlert e cfg inp st = (ev1, err, st1)"
      by (cases "pollAndAlert e cfg inp st")
    obtain ev2 st2 r where b: "monitorFrom e cfg st1 xs = (ev2, st2, r)"
      by (cases "monitorFrom e cfg st1 xs")
    from Cons.prems Tick have kp: "keepsPresent p inp" by (simp add: alwaysPresent_def)
    from pollAndAlert_credit [OF assms(1) kp, of e cfg st] a
    have 1: "length (filter (isIdleAlert s p) ev1) + credit s p st1 \<le> credit s p st" by simp
    from Cons.prems have "alwaysPresent p xs" by (simp add: alwaysPresent_def)
    from Cons.IH [OF this, of st1] b
    have 2: "length (filter (isIdleAlert s p) ev2) \<le> credit s p st1" by simp
    from Tick a b 1 2 show ?thesis by (simp split: option.splits)
  qed
qed

lemma credit_le_1: "credit s p st \<le> 1"
  by (simp add: credit_def split: option.splits)

lemma processConns_flags:
  "map_of (tracked st) p = Some tc \<Longrightarrow>
   \<exists>tc'. map_of (tracked (snd (processConns e cfg tb st conns))) p = Some tc' \<and> flagsKept tc tc'"
proof (induction conns arbitrary: st tc)
  case Nil
  then show ?case by (simp add: flagsKept_def)
next
  case (Cons c cs)
  from processConn_flags [OF Cons.prems, of e cfg tb c]
  obtain tc1 where 1: "map_of (tracked (snd (processConn e cfg tb st c))) p = Some tc1"
    and k1: "flagsKept tc tc1" by blast
  from Cons.IH [OF 1]
  obtain tc2 where 2: "map_of (tracked (snd (processConns e cfg tb (snd (processConn e cfg tb st c)) cs))) p = Some tc2"
    and k2: "flagsKept tc1 tc2" by blast
  from k1 k2 have "flagsKept tc tc2" by (simp add: flagsKept_def)
  with 2 show ?case by (auto simp: Let_def split: prod.splits)
qed

lemma pollAndAlert_flags:
  assumes "map_of (tracked st) p = Some tc"
    and "map_of (tracked (snd (snd (pollAndAlert e cfg inp st)))) p = Some tc'"
  shows "flagsKept tc tc'"
proof (cases "poolStats inp")
  case (Inl err)
  with assms show ?thesis by (simp add: pollAndAlert_def flagsKept_def)
next
  case (Inr stats)
  obtain ev1 st1 where a: "poolCheck e cfg stats st = (ev1, st1)" by (cases "poolCheck e cfg stats st")
  from a poolCheck_tracked [of e cfg stats st] have t1: "tracked st1 = tracked st" by simp
  show ?thesis
  proof (cases "idleTransactions inp")
    case (Inl err)
    with Inr a t1 assms show ?thesis by (simp add: pollAndAlert_def flagsKept_def)
  next
    case (Inr conns)
    obtain ev2 st2 where b: "processConns e cfg (terminate inp) st1 conns = (ev2, st2)"
      by (cases "processConns e cfg (terminate inp) st1 conns")
    obtain ev3 st3 where c: "resolveLoop e (map PID conns) st2 (rangeOrder e (tracked st2)) = (ev3, st3)"
      by (cases "resolveLoop e (map PID conns) st2 (rangeOrder e (tracked st2))")
    from assms(1) t1 have "map_of (tracked st1) p = Some tc" by simp
    from processConns_flags [OF this, of e cfg "terminate inp" conns] b
    obtain tc2 where 2: "map_of (tracked st2) p = Some tc2" and k: "flagsKept tc tc2" by auto
    from \<open>poolStats inp = Inr stats\<close> Inr a b c assms(2)
    have "map_of (tracked st3) p = Some tc'" by (simp add: pollAndAlert_def)
    with resolveLoop_map_of [of e "map PID conns" st2 "rangeOrder e (tracked st2)" p] c 2
    have "tc' = tc2" by (simp split: if_splits)
    with k show ?thesis by simp
  qed
qed

text \<open>
  C1. Over any sequence of receptions of the driver in which every cycle keeps a session
  present (each list of idle transactions that is fetched has its identifier), at most one
  warning alert and at most one critical alert are dispatched for that identifier, from any
  state of the daemon. And in one cycle, whatever its inputs, an entry that is in the table
  before and after the cycle keeps each flag that was set.
\<close>

theorem one_shot_idle_alerts:
  "(alwaysPresent p sel \<longrightarrow>
      length (filter (isIdleAlert SeverityWarning p) (fst (monitorFrom e cfg st sel))) \<le> 1 \<and>
      length (filter (isIdleAlert SeverityCritical p) (fst (monitorFrom e cfg st sel))) \<le> 1) \<and>
   (map_of (tracked st) p = Some tc \<and>
    map_of (tracked (snd (snd (pollAndAlert e cfg inp st)))) p = Some tc' \<longrightarrow>
      (warningSent tc \<longrightarrow> warningSent tc') \<and> (criticalSent tc \<longrightarrow> criticalSent tc'))"
proof -
  have w: "length (filter (isIdleAlert SeverityWarning p) (fst (monitorFrom e cfg st sel))) \<le> 1"
    if h: "alwaysPresent p sel"
  proof -
    have "length (filter (isIdleAlert SeverityWarning p) (fst (monitorFrom e cfg st sel)))
            \<le> credit SeverityWarning p st"
      by (rule monitorFrom_credit [OF _ h]) simp
    then show ?thesis using credit_le_1 [of SeverityWarning p st] by simp
  qed
  have c: "length (filter (isIdleAlert SeverityCritical p) (fst (monitorFrom e cfg st sel))) \<le> 1"
    if h: "alwaysPresent p sel"
  proof -
    have "length (filter (isIdleAlert SeverityCritical p) (fst (monitorFrom e cfg st sel)))
            \<le> credit SeverityCritical p st"
      by (rule monitorFrom_credit [OF _ h]) simp
    then show ?thesis using credit_le_1 [of SeverityCritical p st] by simp
  qed
  have f: "flagsKept tc tc'"
    if "map_of (tracked st) p = Some tc"
      and "map_of (tracked (snd (snd (pollAndAlert e cfg inp st)))) p = Some tc'"
    using that by (rule pollAndAlert_flags)
  from w c f show ?thesis unfolding flagsKept_def by blast
qed

text \<open>
  Two cycles that both list session 1002, from the start of the daemon; and the second
  cycle of the scenario, in which the entry of 1002 keeps its warning flag.
\<close>

theorem one_shot_idle_alerts_witness:
  "alwaysPresent 1002 [Tick (cycleWith [worker]), Tick (cycleWith [worker])] \<and>
   length (filter (isIdleAlert SeverityWarning 1002)
     (fst (monitorFrom (scenarioEnv 120) localConfig startDaemon
        [Tick (cycleWith [worker]), Tick (cycleWith [worker])]))) \<le> 1 \<and>
   length (filter (isIdleAlert SeverityCritical 1002)
     (fst (monitorFrom (scenarioEnv 120) localConfig startDaemon
        [Tick (cycleWith [worker]), Tick (cycleWith [worker])]))) \<le> 1 \<and>
   map_of (tracked afterCycle1) 1002 = Some (workerTracked True False) \<and>
   map_of (tracked (snd (snd (pollAndAlert (scenarioEnv 120) localConfig (cycleWith [worker])
     afterCycle1)))) 1002 = Some (workerTracked True True) \<and>
   warningSent (workerTracked True False) \<and> warningSent (workerTracked True True)"
proof -
  let ?sel = "[Tick (cycleWith [worker]), Tick (cycleWith [worker])]"
  have h: "alwaysPresent 1002 ?sel" by code_simp
  have m1: "map_of (tracked afterCycle1) 1002 = Some (workerTracked True False)"
    by (simp add: afterCycle1_def)
  have m2: "map_of (tracked (snd (snd (pollAndAlert (scenarioEnv 120) localConfig
      (cycleWith [worker]) afterCycle1)))) 1002 = Some (workerTracked True True)"
    by (simp add: scenario_cycle2 afterCycle2_def)
  have f: "warningSent (workerTracked True False)" by (simp add: workerTracked_def)
  note t = one_shot_idle_alerts [of 1002 ?sel "scenarioEnv 120" localConfig startDaemon]
  from t h have a: "length (filter (isIdleAlert SeverityWarning 1002)
     (fst (monitorFrom (scenarioEnv 120) localConfig startDaemon ?sel))) \<le> 1"
    and b: "length (filter (isIdleAlert SeverityCritical 1002)
     (fst (monitorFrom (scenarioEnv 120) localConfig startDaemon ?sel))) \<le> 1"
    by blast+
  note u = one_shot_idle_alerts [of 1002 "[]" "scenarioEnv 120" localConfig afterCycle1
      "workerTracked True False" "cycleWith [worker]" "workerTracked True True"]
  from u m1 m2 f have g: "warningSent (workerTracked True True)" by blast
  from h a b m1 m2 f g show ?thesis by blast
qed

subsection \<open>Resolved sessions\<close>

lemma alertsFor_append [simp]: "alertsFor p (xs @ ys) = alertsFor p xs @ alertsFor p ys"
  by (simp add: alertsFor_def)

lemma alertsFor_Nil [simp]: "alertsFor p [] = []"
  by (simp add: alertsFor_def)

lemma poolCheck_alertsFor: "alertsFor p (fst (poolCheck e cfg stats st)) = []"
  by (simp add: poolCheck_def Let_def case_prod_beta alertsFor_def)

lemma poolCheck_ticks: "ticks st \<le> ticks (snd (poolCheck e cfg stats st))"
  by (simp add: poolCheck_def Let_def case_prod_beta)

lemma autoTerminate_eventPID:
  "ev \<in> set (autoTerminate cfg tb conn d) \<Longrightarrow> eventPID ev = Some (PID conn)"
  by (auto simp: autoTerminate_def split: if_splits sum.splits)

lemma processConn_eventPID:
  "ev \<in> set (fst (processConn e cfg tb st conn)) \<Longrightarrow> eventPID ev = Some (PID conn)"
  by (auto simp: processConn_def Let_def case_prod_beta checkWarning_def checkCritical_def
        dest: autoTerminate_eventPID split: if_splits)

lemma processConn_alertsFor:
  "p \<noteq> PID conn \<Longrightarrow> alertsFor p (fst (processConn e cfg tb st conn)) = []"
  unfolding alertsFor_def filter_empty_conv
  using processConn_eventPID [of _ e cfg tb st conn] by auto

lemma processConns_absent:
  "p \<notin> set (map PID conns) \<Longrightarrow>
   alertsFor p (fst (processConns e cfg tb st conns)) = [] \<and>
   map_of (tracked (snd (processConns e cfg tb st conns))) p = map_of (tracked st) p"
  by (induction conns arbitrary: st)
     (auto simp: Let_def case_prod_beta processConn_alertsFor processConn_other)

lemma processConns_ticks: "ticks st \<le> ticks (snd (processConns e cfg tb st conns))"
proof (induction conns arbitrary: st)
  case Nil
  show ?case by simp
next
  case (Cons c cs)
  have "ticks st \<le> ticks (snd (processConn e cfg tb st c))" by (rule processConn_ticks)
  also have "\<dots> \<le> ticks (snd (processConns e cfg tb (snd (processConn e cfg tb st c)) cs))"
    by (rule Cons.IH)
  finally show ?case by (simp add: Let_def case_prod_beta)
qed

lemma processConns_distinct:
  "distinct (map fst (tracked st)) \<Longrightarrow> distinct (map fst (tracked (snd (processConns e cfg tb st conns))))"
  by (induction conns arbitrary: st) (auto simp: Let_def case_prod_beta processConn_distinct)

lemma resolveLoop_ticks: "ticks st \<le> ticks (snd (resolveLoop e seen st entries))"
proof (induction entries arbitrary: st)
  case Nil
  show ?case by simp
next
  case (Cons x xs)
  obtain k tc where x: "x = (k, tc)" by (cases x)
  show ?case
  proof (cases "k \<in> set seen")
    case True
    with x Cons.IH [of st] show ?thesis by simp
  next
    case False
    with x Cons.IH [of "st\<lparr>tracked := AList.delete k (tracked st), ticks := Suc (ticks st)\<rparr>"]
    show ?thesis by (simp add: Let_def case_prod_beta)
  qed
qed

lemma resolveLoop_absent:
  "p \<notin> fst ` set entries \<Longrightarrow> alertsFor p (fst (resolveLoop e seen st entries)) = []"
  by (induction entries arbitrary: st) (auto simp: Let_def case_prod_beta alertsFor_def)

lemma resolveLoop_entry:
  assumes "distinct (map fst entries)" and "(p, tc) \<in> set entries" and "p \<notin> set seen"
  shows "\<exists>n. ticks st \<le> n \<and> n < ticks (snd (resolveLoop e seen st entries)) \<and>
           alertsFor p (fst (resolveLoop e seen st entries)) =
             (if warningSent tc \<or> criticalSent tc
              then [ResolvedAlert p (appName tc) (Since (clock e n) (firstSeen tc))] else [])"
  using assms(1,2)
proof (induction entries arbitrary: st)
  case Nil
  then show ?case by simp
next
  case (Cons x xs)
  obtain k tc0 where x: "x = (k, tc0)" by (cases x)
  show ?case
  proof (cases "k = p")
    case True
    with Cons.prems x have tc0: "tc0 = tc" and notin: "p \<notin> fst ` set xs"
      by (auto simp: image_iff)
    let ?st1 = "st\<lparr>tracked := AList.delete p (tracked st), ticks := Suc (ticks st)\<rparr>"
    have rest: "alertsFor p (fst (resolveLoop e seen ?st1 xs)) = []"
      by (rule resolveLoop_absent [OF notin])
    have "Suc (ticks st) \<le> ticks (snd (resolveLoop e seen ?st1 xs))"
      using resolveLoop_ticks [of ?st1 e seen xs] by simp
    show ?thesis
      apply (rule exI [of _ "ticks st"])
      using True x tc0 assms(3) rest \<open>Suc (ticks st) \<le> ticks (snd (resolveLoop e seen ?st1 xs))\<close>
      by (simp add: Let_def case_prod_beta alertsFor_def)
  next
    case False
    with Cons.prems x have d: "distinct (map fst xs)" and m: "(p, tc) \<in> set xs" by auto
    show ?thesis
    proof (cases "k \<in> set seen")
      case True
      with x Cons.IH [OF d m, of st] show ?thesis by simp
    next
      case notseen: False
      let ?st1 = "st\<lparr>tracked := AList.delete k (tracked st), ticks := Suc (ticks st)\<rparr>"
      from Cons.IH [OF d m, of ?st1]
      obtain n where n: "ticks ?st1 \<le> n" "n < ticks (snd (resolveLoop e seen ?st1 xs))"
        "alertsFor p (fst (resolveLoop e seen ?st1 xs)) =
             (if warningSent tc \<or> criticalSent tc
              then [ResolvedAlert p (appName tc) (Since (clock e n) (firstSeen tc))] else [])"
        by blast
      show ?thesis
        apply (rule exI [of _ n])
        using n x False notseen
        by (simp add: Let_def case_prod_beta alertsFor_def)
    qed
  qed
qed


text \<open>
  C4. In a cycle whose two fetches succeed, for an identifier that is in the table (a Go map:
  one entry for a key, and a \<open>range\<close> visits every entry once, in any order) and not in the
  list of idle transactions: the entry is deleted in that cycle, and the alerts of the cycle for the identifier are one resolved alert, with the
  entry's application and the time between a clock reading of this cycle and the entry's
  first-seen time, when a flag of the entry is set, and no alert at all when none is.
\<close>

theorem resolved_when_absent:
  assumes "poolStats inp = Inr stats" and "idleTransactions inp = Inr conns"
    and "distinct (map fst (tracked st))"
    and "map_of (tracked st) p = Some tc"
    and "p \<notin> set (map PID conns)"
    and "\<And>entries. distinct (map fst entries) \<Longrightarrow> visitsAll e entries"
  shows "map_of (tracked (snd (snd (pollAndAlert e cfg inp st)))) p = None \<and>
         (\<exists>n. ticks st \<le> n \<and> n < ticks (snd (snd (pollAndAlert e cfg inp st))) \<and>
              alertsFor p (fst (pollAndAlert e cfg inp st)) =
                (if warningSent tc \<or> criticalSent tc
                 then [ResolvedAlert p (appName tc) (Since (clock e n) (firstSeen tc))]
                 else []))"
proof -
  define st1 where "st1 = snd (poolCheck e cfg stats st)"
  define st2 where "st2 = snd (processConns e cfg (terminate inp) st1 conns)"
  define st3 where "st3 = snd (resolveLoop e (map PID conns) st2 (rangeOrder e (tracked st2)))"
  have res: "pollAndAlert e cfg inp st =
      (fst (poolCheck e cfg stats st) @ fst (processConns e cfg (terminate inp) st1 conns)
         @ fst (resolveLoop e (map PID conns) st2 (rangeOrder e (tracked st2))), None, st3)"
    using assms(1,2) by (simp add: pollAndAlert_def case_prod_beta st1_def st2_def st3_def)
  have t1: "tracked st1 = tracked st" by (simp add: st1_def poolCheck_tracked)
  have a2: "alertsFor p (fst (processConns e cfg (terminate inp) st1 conns)) = []"
    and m2: "map_of (tracked st2) p = map_of (tracked st1) p"
    using processConns_absent [OF assms(5), of e cfg "terminate inp" st1] by (simp_all add: st2_def)
  from m2 t1 assms(4) have m2': "map_of (tracked st2) p = Some tc" by simp
  then have mem: "(p, tc) \<in> set (tracked st2)" by (rule map_of_SomeD)
  have d2: "distinct (map fst (tracked st2))"
    unfolding st2_def by (rule processConns_distinct) (simp add: t1 assms(3))
  from assms(6) [OF d2] have d2': "distinct (map fst (rangeOrder e (tracked st2)))"
    and mem': "(p, tc) \<in> set (rangeOrder e (tracked st2))"
    using mem by (simp_all add: visitsAll_def)
  from resolveLoop_entry [OF d2' mem' assms(5), of st2 e]
  obtain n where n: "ticks st2 \<le> n" "n < ticks st3"
    "alertsFor p (fst (resolveLoop e (map PID conns) st2 (rangeOrder e (tracked st2)))) =
       (if warningSent tc \<or> criticalSent tc
        then [ResolvedAlert p (appName tc) (Since (clock e n) (firstSeen tc))] else [])"
    unfolding st3_def by blast
  have "ticks st \<le> ticks st1" unfolding st1_def by (rule poolCheck_ticks)
  also have "\<dots> \<le> ticks st2" unfolding st2_def by (rule processConns_ticks)
  finally have le: "ticks st \<le> n" using n(1) by simp
  have gone: "map_of (tracked st3) p = None"
    using resolveLoop_map_of [of e "map PID conns" st2 "rangeOrder e (tracked st2)" p] mem' assms(5)
    by (auto simp: st3_def image_iff)
  show ?thesis
    using res gone le n(2,3) a2 poolCheck_alertsFor [of p e cfg stats st]
    by auto
qed


text \<open>A cycle 120 seconds after the first observation in which session 1002 is gone from the list.\<close>

theorem resolved_when_absent_witness:
  "poolStats (cycleWith []) = Inr quietPool \<and> idleTransactions (cycleWith []) = Inr [] \<and>
   distinct (map fst (tracked afterCycle2)) \<and>
   map_of (tracked afterCycle2) 1002 = Some (workerTracked True True) \<and>
   1002 \<notin> set (map PID []) \<and>
   map_of (tracked (snd (snd (pollAndAlert (scenarioEnv 120) localConfig (cycleWith [])
     afterCycle2)))) 1002 = None \<and>
   (\<exists>n. ticks afterCycle2 \<le> n \<and>
        n < ticks (snd (snd (pollAndAlert (scenarioEnv 120) localConfig (cycleWith []) afterCycle2))) \<and>
        alertsFor 1002 (fst (pollAndAlert (scenarioEnv 120) localConfig (cycleWith []) afterCycle2)) =
          (if warningSent (workerTracked True True) \<or> criticalSent (workerTracked True True)
           then [ResolvedAlert 1002 (appName (workerTracked True True))
                   (Since (clock (scenarioEnv 120) n) (firstSeen (workerTracked True True)))]
           else []))"
proof -
  have h1: "poolStats (cycleWith []) = Inr quietPool" by (simp add: cycleWith_def)
  have h2: "idleTransactions (cycleWith []) = Inr []" by (simp add: cycleWith_def)
  have h3: "distinct (map fst (tracked afterCycle2))" by (simp add: afterCycle2_def)
  have h4: "map_of (tracked afterCycle2) 1002 = Some (workerTracked True True)"
    by (simp add: afterCycle2_def)
  have h5: "1002 \<notin> set (map PID [])" by simp
  have h6: "visitsAll (scenarioEnv 120) entries" if "distinct (map fst entries)" for entries
    using that by (simp add: visitsAll_def scenarioEnv_def envWith_def)
  from resolved_when_absent [OF h1 h2 h3 h4 h5 h6, of localConfig]
    h1 h2 h3 h4 h5
  show ?thesis by blast
qed


subsection \<open>Warning before critical\<close>

lemma warnedBefore_append:
  "warnedBefore ws (xs @ ys) = (warnedBefore ws xs \<and> warnedBefore (warnedAfter ws xs) ys)"
  by (induction ws xs rule: warnedBefore.induct) auto

lemma warnedAfter_append:
  "warnedAfter ws (xs @ ys) = warnedAfter (warnedAfter ws xs) ys"
  by (induction ws xs rule: warnedAfter.induct) auto

lemma list_all_update:
  "P (k, v) \<Longrightarrow> list_all P al \<Longrightarrow> list_all P (AList.update k v al)"
  by (induction al) auto

lemma list_all_delete: "list_all P al \<Longrightarrow> list_all P (AList.delete k al)"
  by (induction al) auto

lemma list_all_map_of:
  "list_all P al \<Longrightarrow> map_of al k = Some v \<Longrightarrow> P (k, v)"
  by (induction al) (auto split: if_splits)

lemma autoTerminate_neutral:
  "warnedBefore ws (autoTerminate cfg tb conn d) \<and> warnedAfter ws (autoTerminate cfg tb conn d) = ws"
  by (simp add: autoTerminate_def split: sum.splits)

lemma poolCheck_neutral:
  "warnedBefore ws (fst (poolCheck e cfg stats st)) \<and> warnedAfter ws (fst (poolCheck e cfg stats st)) = ws"
  by (simp add: poolCheck_def Let_def case_prod_beta)

lemma trackConn_tracked:
  "tracked (snd (trackConn e st conn)) =
     (case map_of (tracked st) (PID conn) of
        Some tc \<Rightarrow> tracked st
      | None \<Rightarrow> AList.update (PID conn) (fst (trackConn e st conn)) (tracked st))"
  by (simp add: trackConn_def Let_def split: option.splits)

lemma processConn_tracked:
  "tracked (snd (processConn e cfg tb st conn)) =
     AList.update (PID conn)
       (snd (checkCritical cfg conn (IdleDuration (clock e (ticks st)) conn)
          (snd (checkWarning cfg conn (IdleDuration (clock e (ticks st)) conn)
             (fst (trackConn e (st\<lparr>ticks := Suc (ticks st)\<rparr>) conn))))))
       (tracked st)"
  by (simp add: processConn_eq Let_def trackConn_tracked split: option.splits)

lemma processConn_fst:
  "fst (processConn e cfg tb st conn) =
     fst (checkWarning cfg conn (IdleDuration (clock e (ticks st)) conn)
             (fst (trackConn e (st\<lparr>ticks := Suc (ticks st)\<rparr>) conn))) @
     fst (checkCritical cfg conn (IdleDuration (clock e (ticks st)) conn)
          (snd (checkWarning cfg conn (IdleDuration (clock e (ticks st)) conn)
             (fst (trackConn e (st\<lparr>ticks := Suc (ticks st)\<rparr>) conn))))) @
     autoTerminate cfg tb conn (IdleDuration (clock e (ticks st)) conn)"
  by (simp add: processConn_eq Let_def)

lemma trackConn_flags:
  "flagsOrdered st \<Longrightarrow>
   criticalSent (fst (trackConn e st' conn)) \<longrightarrow> warningSent (fst (trackConn e st' conn))"
  if "tracked st' = tracked st"
  using that list_all_map_of [of "\<lambda>(k, tc). criticalSent tc \<longrightarrow> warningSent tc" "tracked st" "PID conn"]
  by (auto simp: trackConn_fst flagsOrdered_def split: option.splits)

lemma trackConn_warned:
  "warnedIn ws st \<Longrightarrow> warningSent (fst (trackConn e st' conn)) \<Longrightarrow> PID conn \<in> set ws"
  if "tracked st' = tracked st"
  using that list_all_map_of [of "\<lambda>(k, tc). warningSent tc \<longrightarrow> k \<in> set ws" "tracked st" "PID conn"]
  by (auto simp: trackConn_fst warnedIn_def split: option.splits)

lemma processConn_flagsOrdered:
  assumes "IdleWarning cfg \<le> IdleCritical cfg" and "flagsOrdered st"
  shows "flagsOrdered (snd (processConn e cfg tb st conn))"
proof -
  let ?tc = "fst (trackConn e (st\<lparr>ticks := Suc (ticks st)\<rparr>) conn)"
  have "criticalSent ?tc \<longrightarrow> warningSent ?tc"
    by (rule trackConn_flags [OF _ assms(2)]) simp
  with assms show ?thesis
    unfolding flagsOrdered_def processConn_tracked
    by (intro list_all_update) (auto simp: checkWarning_flags checkCritical_flags)
qed

lemma processConn_warned:
  assumes "IdleWarning cfg \<le> IdleCritical cfg" and "warnedIn ws st"
  shows "warnedBefore ws (fst (processConn e cfg tb st conn)) \<and>
         warnedIn (warnedAfter ws (fst (processConn e cfg tb st conn))) (snd (processConn e cfg tb st conn))"
proof -
  let ?d = "IdleDuration (clock e (ticks st)) conn"
  let ?tc = "fst (trackConn e (st\<lparr>ticks := Suc (ticks st)\<rparr>) conn)"
  have w: "warningSent ?tc \<Longrightarrow> PID conn \<in> set ws"
    by (rule trackConn_warned [OF _ assms(2)]) simp_all
  have mono: "list_all (\<lambda>(k, tc). warningSent tc \<longrightarrow> k \<in> set (PID conn # ws)) (tracked st)"
    using assms(2) unfolding warnedIn_def by (auto simp: list_all_iff)
  show ?thesis
    unfolding processConn_fst processConn_tracked warnedIn_def
    using assms w mono sev_distinct
    by (auto simp: warnedBefore_append warnedAfter_append autoTerminate_neutral
          checkWarning_def checkCritical_def warnedIn_def intro!: list_all_update)
qed


lemma processConns_flagsOrdered:
  assumes "IdleWarning cfg \<le> IdleCritical cfg"
  shows "flagsOrdered st \<Longrightarrow> flagsOrdered (snd (processConns e cfg tb st conns))"
  by (induction conns arbitrary: st)
     (simp_all add: Let_def case_prod_beta processConn_flagsOrdered [OF assms])

lemma processConns_warned:
  assumes "IdleWarning cfg \<le> IdleCritical cfg"
  shows "warnedIn ws st \<Longrightarrow>
         warnedBefore ws (fst (processConns e cfg tb st conns)) \<and>
         warnedIn (warnedAfter ws (fst (processConns e cfg tb st conns)))
           (snd (processConns e cfg tb st conns))"
proof (induction conns arbitrary: st ws)
  case Nil
  then show ?case by simp
next
  case (Cons c cs)
  from processConn_warned [OF assms Cons.prems, of e tb c]
  have 1: "warnedBefore ws (fst (processConn e cfg tb st c))"
    and 2: "warnedIn (warnedAfter ws (fst (processConn e cfg tb st c))) (snd (processConn e cfg tb st c))"
    by simp_all
  from Cons.IH [OF 2] 1 show ?case
    by (simp add: Let_def case_prod_beta warnedBefore_append warnedAfter_append)
qed

lemma resolveLoop_flagsOrdered:
  "flagsOrdered st \<Longrightarrow> flagsOrdered (snd (resolveLoop e seen st entries))"
proof (induction entries arbitrary: st)
  case Nil
  then show ?case by simp
next
  case (Cons x xs)
  obtain k tc where x: "x = (k, tc)" by (cases x)
  from Cons.prems
  have "flagsOrdered (st\<lparr>tracked := AList.delete k (tracked st), ticks := Suc (ticks st)\<rparr>)"
    by (simp add: flagsOrdered_def list_all_delete)
  from Cons.IH [OF this] Cons.IH [OF Cons.prems] x show ?case
    by (simp add: Let_def case_prod_beta)
qed

lemma warnedIn_delete:
  "warnedIn ws st \<Longrightarrow>
   warnedIn (removeAll k ws) (st\<lparr>tracked := AList.delete k (tracked st), ticks := n\<rparr>)"
  by (auto simp: warnedIn_def AList.delete_eq list_all_iff)

lemma resolveLoop_warned:
  "warnedIn ws st \<Longrightarrow>
   warnedBefore ws (fst (resolveLoop e seen st entries)) \<and>
   warnedIn (warnedAfter ws (fst (resolveLoop e seen st entries))) (snd (resolveLoop e seen st entries))"
proof (induction entries arbitrary: st ws)
  case Nil
  then show ?case by simp
next
  case (Cons x xs)
  obtain k tc where x: "x = (k, tc)" by (cases x)
  show ?case
  proof (cases "k \<in> set seen")
    case True
    with x Cons.IH [OF Cons.prems] show ?thesis by simp
  next
    case False
    from Cons.prems
    have "warnedIn (removeAll k ws) (st\<lparr>tracked := AList.delete k (tracked st), ticks := Suc (ticks st)\<rparr>)"
      by (rule warnedIn_delete)
    from Cons.IH [OF this] x False show ?thesis
      by (simp add: Let_def case_prod_beta)
  qed
qed

lemma pollAndAlert_flagsOrdered:
  assumes "IdleWarning cfg \<le> IdleCritical cfg" and "flagsOrdered st"
  shows "flagsOrdered (snd (snd (pollAndAlert e cfg inp st)))"
proof -
  have 1: "flagsOrdered (snd (poolCheck e cfg stats st))" for stats
    using assms(2) by (simp add: flagsOrdered_def poolCheck_tracked)
  show ?thesis
    using assms(2) 1
    by (auto simp: pollAndAlert_def case_prod_beta split: sum.splits
          intro!: resolveLoop_flagsOrdered processConns_flagsOrdered [OF assms(1)])
qed

lemma pollAndAlert_warned:
  assumes "IdleWarning cfg \<le> IdleCritical cfg" and "warnedIn ws st"
  shows "warnedBefore ws (fst (pollAndAlert e cfg inp st)) \<and>
         warnedIn (warnedAfter ws (fst (pollAndAlert e cfg inp st))) (snd (snd (pollAndAlert e cfg inp st)))"
proof (cases "poolStats inp")
  case (Inl err)
  with assms(2) show ?thesis by (simp add: pollAndAlert_def)
next
  case (Inr stats)
  let ?st1 = "snd (poolCheck e cfg stats st)"
  have 1: "warnedIn ws ?st1" using assms(2) by (simp add: warnedIn_def poolCheck_tracked)
  show ?thesis
  proof (cases "idleTransactions inp")
    case (Inl err)
    with Inr 1 show ?thesis by (simp add: pollAndAlert_def case_prod_beta poolCheck_neutral)
  next
    case (Inr conns)
    let ?r2 = "processConns e cfg (terminate inp) ?st1 conns"
    from processConns_warned [OF assms(1) 1, of e "terminate inp" conns]
    have 2: "warnedBefore ws (fst ?r2)" and 3: "warnedIn (warnedAfter ws (fst ?r2)) (snd ?r2)"
      by simp_all
    from resolveLoop_warned [OF 3, of e "map PID conns" "rangeOrder e (tracked (snd ?r2))"] 2
      \<open>poolStats inp = Inr stats\<close> Inr
    show ?thesis
      by (simp add: pollAndAlert_def case_prod_beta warnedBefore_append warnedAfter_append
            poolCheck_neutral)
  qed
qed

lemma monitorFrom_flagsOrdered:
  assumes "IdleWarning cfg \<le> IdleCritical cfg"
  shows "flagsOrdered st \<Longrightarrow> flagsOrdered (fst (snd (monitorFrom e cfg st sel)))"
proof (induction sel arbitrary: st)
  case Nil
  then show ?case by simp
next
  case (Cons x xs)
  show ?case
  proof (cases x)
    case Done
    with Cons.prems show ?thesis by simp
  next
    case (Tick inp)
    from pollAndAlert_flagsOrdered [OF assms Cons.prems, of e inp]
    have "flagsOrdered (snd (snd (pollAndAlert e cfg inp st)))" .
    from Cons.IH [OF this] Tick show ?thesis by (simp add: case_prod_beta Let_def)
  qed
qed

lemma monitorFrom_warned:
  assumes "IdleWarning cfg \<le> IdleCritical cfg"
  shows "warnedIn ws st \<Longrightarrow> warnedBefore ws (fst (monitorFrom e cfg st sel))"
proof (induction sel arbitrary: st ws)
  case Nil
  then show ?case by simp
next
  case (Cons x xs)
  show ?case
  proof (cases x)
    case Done
    then show ?thesis by simp
  next
    case (Tick inp)
    let ?r = "pollAndAlert e cfg inp st"
    from pollAndAlert_warned [OF assms Cons.prems, of e inp]
    have 1: "warnedBefore ws (fst ?r)" and 2: "warnedIn (warnedAfter ws (fst ?r)) (snd (snd ?r))"
      by simp_all
    have 3: "warnedBefore ws' (case fst (snd ?r) of None \<Rightarrow> [] | Some x \<Rightarrow> [LogPollingFailed x]) \<and>
             warnedAfter ws' (case fst (snd ?r) of None \<Rightarrow> [] | Some x \<Rightarrow> [LogPollingFailed x]) = ws'"
      for ws' by (simp split: option.splits)
    from Cons.IH [OF 2] 1 3 Tick show ?thesis
      by (simp add: case_prod_beta Let_def warnedBefore_append warnedAfter_append)
  qed
qed

lemma Validate_thresholds:
  "Validate database_url cfg = None \<Longrightarrow>
   IdleWarning cfg < IdleCritical cfg \<and> WarningPercent cfg < CriticalPercent cfg"
  by (simp add: Validate_def split: if_splits)

lemma idleAlerts_append: "idleAlerts (xs @ ys) = idleAlerts xs @ idleAlerts ys"
  by (simp add: idleAlerts_def map_filter_def)

lemma autoTerminate_idleAlerts: "idleAlerts (autoTerminate cfg tb conn d) = []"
  by (simp add: autoTerminate_def idleAlerts_def map_filter_def split: sum.splits)

lemma checkWarning_idleAlerts:
  "idleAlerts (fst (checkWarning cfg conn d tc)) =
     (if \<not> warningSent tc \<and> IdleWarning cfg \<le> d then [(SeverityWarning, PID conn)] else [])"
  by (simp add: checkWarning_def idleAlerts_def map_filter_def)

lemma checkCritical_idleAlerts:
  "idleAlerts (fst (checkCritical cfg conn d tc)) =
     (if \<not> criticalSent tc \<and> IdleCritical cfg \<le> d then [(SeverityCritical, PID conn)] else [])"
  by (simp add: checkCritical_def idleAlerts_def map_filter_def)

lemma processConn_idleAlerts:
  "idleAlerts (fst (processConn e cfg tb st conn)) =
     idleAlerts (fst (checkWarning cfg conn (IdleDuration (clock e (ticks st)) conn)
             (fst (trackConn e (st\<lparr>ticks := Suc (ticks st)\<rparr>) conn)))) @
     idleAlerts (fst (checkCritical cfg conn (IdleDuration (clock e (ticks st)) conn)
          (snd (checkWarning cfg conn (IdleDuration (clock e (ticks st)) conn)
             (fst (trackConn e (st\<lparr>ticks := Suc (ticks st)\<rparr>) conn))))))"
  by (simp add: processConn_fst idleAlerts_append autoTerminate_idleAlerts)

lemma processConn_both_alerts:
  assumes "IdleWarning cfg \<le> IdleCritical cfg" and "flagsOrdered st"
    and "case map_of (tracked st) (PID conn) of None \<Rightarrow> True | Some tc \<Rightarrow> \<not> warningSent tc"
    and "IdleCritical cfg \<le> IdleDuration (clock e (ticks st)) conn"
  shows "idleAlerts (fst (processConn e cfg tb st conn)) =
           [(SeverityWarning, PID conn), (SeverityCritical, PID conn)]"
proof -
  let ?tc = "fst (trackConn e (st\<lparr>ticks := Suc (ticks st)\<rparr>) conn)"
  have w: "\<not> warningSent ?tc"
    using assms(3) by (simp add: trackConn_fst split: option.splits)
  have "criticalSent ?tc \<longrightarrow> warningSent ?tc"
    by (rule trackConn_flags [OF _ assms(2)]) simp
  with w have c: "\<not> criticalSent ?tc" by blast
  from w c assms(1,4) show ?thesis
    by (simp add: processConn_idleAlerts checkWarning_idleAlerts checkCritical_idleAlerts
          checkWarning_flags)
qed

lemma idleAlertsFor_append:
  "idleAlertsFor p (xs @ ys) = idleAlertsFor p xs @ idleAlertsFor p ys"
  by (simp add: idleAlertsFor_def idleAlerts_append)

lemma idleAlertsFor_Nil: "idleAlertsFor p [] = []"
  by (simp add: idleAlertsFor_def idleAlerts_def map_filter_simps)

lemma ladder_compose:
  "a \<le> b \<Longrightarrow> b \<le> c \<Longrightarrow>
   drop a (take b (ladder p)) @ drop b (take c (ladder p)) = drop a (take c (ladder p))"
proof -
  assume ab: "a \<le> b" and bc: "b \<le> c"
  have "take c (ladder p) = take b (take c (ladder p)) @ drop b (take c (ladder p))"
    by (simp only: append_take_drop_id)
  also have "take b (take c (ladder p)) = take b (ladder p)" using bc by (simp add: min_def)
  finally have "drop a (take c (ladder p)) =
      drop a (take b (ladder p) @ drop b (take c (ladder p)))" by simp
  also have "\<dots> = drop a (take b (ladder p)) @ drop b (take c (ladder p))"
    using ab bc by (auto simp: ladder_def min_def)
  finally show ?thesis by simp
qed

lemma processConn_progress:
  assumes "IdleWarning cfg \<le> IdleCritical cfg" and "flagsOrdered st"
  shows "idleAlertsFor p (fst (processConn e cfg tb st conn)) =
           drop (progress st p) (take (progress (snd (processConn e cfg tb st conn)) p) (ladder p)) \<and>
         progress st p \<le> progress (snd (processConn e cfg tb st conn)) p"
proof (cases "p = PID conn")
  case False
  then show ?thesis
    by (simp add: idleAlertsFor_def processConn_idleAlerts checkWarning_idleAlerts
          checkCritical_idleAlerts progress_def processConn_map)
next
  case True
  let ?tc = "fst (trackConn e (st\<lparr>ticks := Suc (ticks st)\<rparr>) conn)"
  have o: "criticalSent ?tc \<longrightarrow> warningSent ?tc"
    by (rule trackConn_flags [OF _ assms(2)]) simp
  have p0: "progress st p = (if criticalSent ?tc then 2 else if warningSent ?tc then 1 else 0)"
    using True by (simp add: progress_def trackConn_fst split: option.splits)
  show ?thesis
    unfolding p0 using True o assms(1)
    by (auto simp: idleAlertsFor_def processConn_idleAlerts checkWarning_idleAlerts
          checkCritical_idleAlerts progress_def processConn_map checkWarning_flags
          checkCritical_flags ladder_def)
qed


lemma processConns_progress:
  assumes "IdleWarning cfg \<le> IdleCritical cfg"
  shows "flagsOrdered st \<Longrightarrow>
         idleAlertsFor p (fst (processConns e cfg tb st conns)) =
           drop (progress st p) (take (progress (snd (processConns e cfg tb st conns)) p) (ladder p)) \<and>
         progress st p \<le> progress (snd (processConns e cfg tb st conns)) p"
proof (induction conns arbitrary: st)
  case Nil
  show ?case by (simp add: idleAlertsFor_Nil)
next
  case (Cons c cs)
  let ?st1 = "snd (processConn e cfg tb st c)"
  let ?st2 = "snd (processConns e cfg tb ?st1 cs)"
  from processConn_progress [OF assms Cons.prems, of p e tb c]
  have 1: "idleAlertsFor p (fst (processConn e cfg tb st c)) =
             drop (progress st p) (take (progress ?st1 p) (ladder p))"
    and l1: "progress st p \<le> progress ?st1 p" by simp_all
  have "flagsOrdered ?st1" by (rule processConn_flagsOrdered [OF assms Cons.prems])
  from Cons.IH [OF this]
  have 2: "idleAlertsFor p (fst (processConns e cfg tb ?st1 cs)) =
             drop (progress ?st1 p) (take (progress ?st2 p) (ladder p))"
    and l2: "progress ?st1 p \<le> progress ?st2 p" by simp_all
  from 1 2 l1 l2 ladder_compose [OF l1 l2, of p] show ?case
    by (simp add: Let_def case_prod_beta idleAlertsFor_append)
qed

lemma poolCheck_idleAlertsFor: "idleAlertsFor p (fst (poolCheck e cfg stats st)) = []"
  by (simp add: poolCheck_def Let_def case_prod_beta idleAlertsFor_def idleAlerts_def
        map_filter_simps)

lemma resolveLoop_idleAlertsFor: "idleAlertsFor p (fst (resolveLoop e seen st entries)) = []"
  by (induction entries arbitrary: st)
     (auto simp: Let_def case_prod_beta idleAlertsFor_def idleAlerts_def map_filter_simps)

lemma progress_cong:
  "map_of (tracked st') p = map_of (tracked st) p \<Longrightarrow> progress st' p = progress st p"
  by (simp add: progress_def)

lemma pollAndAlert_progress:
  assumes "IdleWarning cfg \<le> IdleCritical cfg" and "flagsOrdered st"
    and "poolStats inp = Inr stats" and "idleTransactions inp = Inr conns"
    and "p \<in> set (map PID conns)"
  shows "idleAlertsFor p (fst (pollAndAlert e cfg inp st)) =
           drop (progress st p) (take (progress (snd (snd (pollAndAlert e cfg inp st))) p) (ladder p))"
proof -
  let ?st1 = "snd (poolCheck e cfg stats st)"
  let ?r2 = "processConns e cfg (terminate inp) ?st1 conns"
  let ?r3 = "resolveLoop e (map PID conns) (snd ?r2) (rangeOrder e (tracked (snd ?r2)))"
  have res: "pollAndAlert e cfg inp st =
      (fst (poolCheck e cfg stats st) @ fst ?r2 @ fst ?r3, None, snd ?r3)"
    using assms(3,4) by (simp add: pollAndAlert_def case_prod_beta)
  have t1: "tracked ?st1 = tracked st" by (rule poolCheck_tracked)
  then have f1: "flagsOrdered ?st1" using assms(2) by (simp add: flagsOrdered_def)
  have p1: "progress ?st1 p = progress st p" by (rule progress_cong) (simp add: t1)
  from processConns_progress [OF assms(1) f1, of p e "terminate inp" conns]
  have 2: "idleAlertsFor p (fst ?r2) = drop (progress ?st1 p) (take (progress (snd ?r2) p) (ladder p))"
    by simp
  have "map_of (tracked (snd ?r3)) p = map_of (tracked (snd ?r2)) p"
    using resolveLoop_map_of [of e "map PID conns" "snd ?r2" "rangeOrder e (tracked (snd ?r2))" p]
      assms(5) by simp
  then have p3: "progress (snd ?r3) p = progress (snd ?r2) p" by (rule progress_cong)
  show ?thesis
    unfolding res
    by (simp add: idleAlertsFor_append poolCheck_idleAlertsFor resolveLoop_idleAlertsFor 2 p1 p3)
qed

lemma processConn_ticks_less: "ticks st < ticks (snd (processConn e cfg tb st conn))"
  by (simp add: processConn_eq Let_def trackConn_def split: option.splits)

lemma processConn_bothSent_kept:
  "bothSent st p \<Longrightarrow> bothSent (snd (processConn e cfg tb st conn)) p"
  using processConn_flags [of st p _ e cfg tb conn]
  by (auto simp: bothSent_def flagsKept_def split: option.splits)

lemma processConns_bothSent_kept:
  "bothSent st p \<Longrightarrow> bothSent (snd (processConns e cfg tb st conns)) p"
  by (induction conns arbitrary: st) (simp_all add: Let_def case_prod_beta processConn_bothSent_kept)

lemma processConn_bothSent:
  assumes "IdleWarning cfg \<le> IdleCritical cfg"
    and "IdleCritical cfg \<le> IdleDuration (clock e (ticks st)) conn"
  shows "bothSent (snd (processConn e cfg tb st conn)) (PID conn)"
  using assms by (simp add: bothSent_def processConn_map checkWarning_flags checkCritical_flags)

lemma processConns_bothSent:
  assumes "IdleWarning cfg \<le> IdleCritical cfg"
  shows "conn \<in> set conns \<Longrightarrow>
         (\<And>n. ticks st \<le> n \<Longrightarrow> n < ticks (snd (processConns e cfg tb st conns)) \<Longrightarrow>
               IdleCritical cfg \<le> IdleDuration (clock e n) conn) \<Longrightarrow>
         bothSent (snd (processConns e cfg tb st conns)) (PID conn)"
proof (induction conns arbitrary: st)
  case Nil
  then show ?case by simp
next
  case (Cons c cs)
  let ?st1 = "snd (processConn e cfg tb st c)"
  have eq: "snd (processConns e cfg tb st (c # cs)) = snd (processConns e cfg tb ?st1 cs)"
    by (simp add: Let_def case_prod_beta)
  have lt: "ticks st < ticks ?st1" by (rule processConn_ticks_less)
  have le: "ticks ?st1 \<le> ticks (snd (processConns e cfg tb ?st1 cs))" by (rule processConns_ticks)
  note pr = Cons.prems(2) [unfolded eq]
  show ?case
  proof (cases "conn = c")
    case True
    have "IdleCritical cfg \<le> IdleDuration (clock e (ticks st)) conn"
      using lt le by (intro pr) simp_all
    with True have "bothSent ?st1 (PID conn)"
      using processConn_bothSent [OF assms, of e st c tb] by simp
    then show ?thesis unfolding eq by (rule processConns_bothSent_kept)
  next
    case False
    with Cons.prems(1) have m: "conn \<in> set cs" by simp
    show ?thesis
      unfolding eq
    proof (rule Cons.IH [OF m])
      fix n
      assume "ticks ?st1 \<le> n" and "n < ticks (snd (processConns e cfg tb ?st1 cs))"
      with lt show "IdleCritical cfg \<le> IdleDuration (clock e n) conn"
        by (intro pr) simp_all
    qed
  qed
qed

lemma pollAndAlert_both_alerts:
  assumes "IdleWarning cfg \<le> IdleCritical cfg" and "flagsOrdered st"
    and "poolStats inp = Inr stats" and "idleTransactions inp = Inr conns"
    and "conn \<in> set conns"
    and "case map_of (tracked st) (PID conn) of None \<Rightarrow> True | Some tc \<Rightarrow> \<not> warningSent tc"
    and "list_all (\<lambda>n. IdleCritical cfg \<le> IdleDuration (clock e n) conn)
           [ticks st ..< ticks (snd (snd (pollAndAlert e cfg inp st)))]"
  shows "idleAlertsFor (PID conn) (fst (pollAndAlert e cfg inp st)) =
           [(SeverityWarning, PID conn), (SeverityCritical, PID conn)] \<and>
         bothSent (snd (snd (pollAndAlert e cfg inp st))) (PID conn)"
proof -
  let ?p = "PID conn"
  let ?st1 = "snd (poolCheck e cfg stats st)"
  let ?r2 = "processConns e cfg (terminate inp) ?st1 conns"
  let ?r3 = "resolveLoop e (map PID conns) (snd ?r2) (rangeOrder e (tracked (snd ?r2)))"
  have res: "snd (snd (pollAndAlert e cfg inp st)) = snd ?r3"
    using assms(3,4) by (simp add: pollAndAlert_def case_prod_beta)
  have mem: "?p \<in> set (map PID conns)" using assms(5) by simp
  have l1: "ticks st \<le> ticks ?st1" by (rule poolCheck_ticks)
  have l3: "ticks (snd ?r2) \<le> ticks (snd ?r3)" by (rule resolveLoop_ticks)
  have b2: "bothSent (snd ?r2) ?p"
  proof (rule processConns_bothSent [OF assms(1,5)])
    fix n
    assume "ticks ?st1 \<le> n" and "n < ticks (snd ?r2)"
    with l1 l3 have "n \<in> set [ticks st ..< ticks (snd (snd (pollAndAlert e cfg inp st)))]"
      by (simp add: res)
    with assms(7) show "IdleCritical cfg \<le> IdleDuration (clock e n) conn"
      by (simp add: list_all_iff)
  qed
  have "map_of (tracked (snd ?r3)) ?p = map_of (tracked (snd ?r2)) ?p"
    using resolveLoop_map_of [of e "map PID conns" "snd ?r2" "rangeOrder e (tracked (snd ?r2))" ?p]
      mem by simp
  with b2 have b3: "bothSent (snd (snd (pollAndAlert e cfg inp st))) ?p"
    by (simp add: res bothSent_def)
  then have p3: "progress (snd (snd (pollAndAlert e cfg inp st))) ?p = 2"
    by (auto simp: bothSent_def progress_def split: option.splits)
  have "case map_of (tracked st) ?p of None \<Rightarrow> True
        | Some tc \<Rightarrow> \<not> warningSent tc \<and> \<not> criticalSent tc"
    using assms(6) list_all_map_of [of "\<lambda>(k, tc). criticalSent tc \<longrightarrow> warningSent tc" "tracked st" ?p]
      assms(2)
    by (auto simp: flagsOrdered_def split: option.splits)
  then have p0: "progress st ?p = 0" by (auto simp: progress_def split: option.splits)
  from pollAndAlert_progress [OF assms(1-4) mem, of e] p0 p3 b3
  show ?thesis by (simp add: ladder_def)
qed


text \<open>
  C5. With a configuration that \<open>Validate\<close> accepts (the warning threshold is below the
  critical one): in a cycle whose two fetches succeed, a session of the fetched list that is
  at or past the critical threshold at the clock readings of the cycle, and that is first seen
  or still has its warning flag unset, is sent the warning alert and then the critical alert
  in that cycle, and no other idle transaction alert; its entry ends the cycle with both flags
  set. The driver puts the events of the cycle into its trace. The same holds for one pass of
  the loop body. The table never holds an entry with the critical flag and without the
  warning flag, from the empty table of \<open>monitorLoop\<close> on; and in the trace of
  \<open>monitorLoop\<close> every critical alert of a session comes after a warning alert of the same
  session, with no resolution of it in between.
\<close>

theorem critical_alert_with_warning:
  assumes "Validate database_url cfg = None"
  shows "(poolStats inp = Inr stats \<and> idleTransactions inp = Inr conns \<and> conn \<in> set conns \<and>
          flagsOrdered st \<and>
          (case map_of (tracked st) (PID conn) of None \<Rightarrow> True | Some tc \<Rightarrow> \<not> warningSent tc) \<and>
          list_all (\<lambda>n. IdleCritical cfg \<le> IdleDuration (clock e n) conn)
            [ticks st ..< ticks (snd (snd (pollAndAlert e cfg inp st)))] \<longrightarrow>
            idleAlertsFor (PID conn) (fst (pollAndAlert e cfg inp st)) =
              [(SeverityWarning, PID conn), (SeverityCritical, PID conn)] \<and>
            bothSent (snd (snd (pollAndAlert e cfg inp st))) (PID conn)) \<and>
         fst (monitorFrom e cfg st (Tick inp # sel)) =
           fst (pollAndAlert e cfg inp st) @
           (case fst (snd (pollAndAlert e cfg inp st)) of
              Some x \<Rightarrow> [LogPollingFailed x] | None \<Rightarrow> []) @
           fst (monitorFrom e cfg (snd (snd (pollAndAlert e cfg inp st))) sel) \<and>
         (flagsOrdered st \<and>
          (case map_of (tracked st) (PID conn) of None \<Rightarrow> True | Some tc \<Rightarrow> \<not> warningSent tc) \<and>
          IdleCritical cfg \<le> IdleDuration (clock e (ticks st)) conn \<longrightarrow>
            idleAlerts (fst (processConn e cfg tb st conn)) =
              [(SeverityWarning, PID conn), (SeverityCritical, PID conn)]) \<and>
         (flagsOrdered st \<longrightarrow> flagsOrdered (fst (snd (monitorFrom e cfg st sel)))) \<and>
         flagsOrdered (st\<lparr>tracked := []\<rparr>) \<and>
         warnedBefore [] (fst (monitorLoop e cfg st sel))"
proof -
  from Validate_thresholds [OF assms] have le: "IdleWarning cfg \<le> IdleCritical cfg" by simp
  have a: "warnedIn [] (st\<lparr>tracked := []\<rparr>)" by (simp add: warnedIn_def)
  have b: "flagsOrdered (st\<lparr>tracked := []\<rparr>)" by (simp add: flagsOrdered_def)
  have d: "fst (monitorFrom e cfg st (Tick inp # sel)) =
           fst (pollAndAlert e cfg inp st) @
           (case fst (snd (pollAndAlert e cfg inp st)) of
              Some x \<Rightarrow> [LogPollingFailed x] | None \<Rightarrow> []) @
           fst (monitorFrom e cfg (snd (snd (pollAndAlert e cfg inp st))) sel)"
    by (simp add: Let_def case_prod_beta)
  from pollAndAlert_both_alerts [OF le, of st inp stats conns conn e]
    processConn_both_alerts [OF le] monitorFrom_flagsOrdered [OF le]
    monitorFrom_warned [OF le a] b d
  show ?thesis unfolding monitorLoop_def by blast
qed

text \<open>
  A session first seen after three minutes in its state, with thresholds of thirty seconds
  and two minutes.
\<close>

theorem critical_alert_with_warning_witness:
  "Validate [] localConfig = None \<and>
   poolStats (cycleWith [batchJob]) = Inr quietPool \<and>
   idleTransactions (cycleWith [batchJob]) = Inr [batchJob] \<and>
   batchJob \<in> set [batchJob] \<and> flagsOrdered startDaemon \<and>
   (case map_of (tracked startDaemon) (PID batchJob) of None \<Rightarrow> True
    | Some tc \<Rightarrow> \<not> warningSent tc) \<and>
   list_all (\<lambda>n. IdleCritical localConfig \<le> IdleDuration (clock steadyEnv n) batchJob)
     [ticks startDaemon ..<
      ticks (snd (snd (pollAndAlert steadyEnv localConfig (cycleWith [batchJob]) startDaemon)))] \<and>
   ticks (snd (snd (pollAndAlert steadyEnv localConfig (cycleWith [batchJob]) startDaemon))) = 2 \<and>
   idleAlertsFor (PID batchJob)
       (fst (pollAndAlert steadyEnv localConfig (cycleWith [batchJob]) startDaemon)) =
     [(SeverityWarning, PID batchJob), (SeverityCritical, PID batchJob)] \<and>
   bothSent (snd (snd (pollAndAlert steadyEnv localConfig (cycleWith [batchJob]) startDaemon)))
     (PID batchJob) \<and>
   IdleCritical localConfig \<le> IdleDuration (clock steadyEnv (ticks startDaemon)) batchJob \<and>
   idleAlerts (fst (processConn steadyEnv localConfig (\<lambda>p. Inr True) startDaemon batchJob)) =
     [(SeverityWarning, PID batchJob), (SeverityCritical, PID batchJob)] \<and>
   flagsOrdered (fst (snd (monitorFrom steadyEnv localConfig startDaemon [Tick (cycleWith [batchJob])]))) \<and>
   warnedBefore [] (fst (monitorLoop steadyEnv localConfig startDaemon [Tick (cycleWith [batchJob])]))"
proof -
  have v: "Validate [] localConfig = None" by code_simp
  have g1: "poolStats (cycleWith [batchJob]) = Inr quietPool"
    and g2: "idleTransactions (cycleWith [batchJob]) = Inr [batchJob]"
    by (simp_all add: cycleWith_def)
  have g3: "batchJob \<in> set [batchJob]" by simp
  have h0: "flagsOrdered startDaemon" by code_simp
  have h1: "case map_of (tracked startDaemon) (PID batchJob) of None \<Rightarrow> True
            | Some tc \<Rightarrow> \<not> warningSent tc"
    by (simp add: startDaemon_def)
  have g4: "list_all (\<lambda>n. IdleCritical localConfig \<le> IdleDuration (clock steadyEnv n) batchJob)
     [ticks startDaemon ..<
      ticks (snd (snd (pollAndAlert steadyEnv localConfig (cycleWith [batchJob]) startDaemon)))]"
    by code_simp
  have g5: "ticks (snd (snd (pollAndAlert steadyEnv localConfig (cycleWith [batchJob])
      startDaemon))) = 2"
    by code_simp
  have h2: "IdleCritical localConfig \<le> IdleDuration (clock steadyEnv (ticks startDaemon)) batchJob"
    by code_simp
  from critical_alert_with_warning [OF v, where st = startDaemon and conn = batchJob
      and e = steadyEnv and tb = "\<lambda>p. Inr True" and sel = "[Tick (cycleWith [batchJob])]"
      and inp = "cycleWith [batchJob]" and stats = quietPool and conns = "[batchJob]"]
    v g1 g2 g3 g4 g5 h0 h1 h2
  show ?thesis by blast
qed

subsection \<open>Thresholds and severities\<close>

lemma poolCheck_levels:
  "poolLevels (fst (poolCheck e cfg stats st)) =
     (if real_of_int (CriticalPercent cfg) \<le> UsagePercent e stats then [SeverityCritical]
      else if real_of_int (WarningPercent cfg) \<le> UsagePercent e stats then [SeverityWarning]
      else [])"
  by (simp add: poolCheck_def Let_def case_prod_beta poolLevels_def map_filter_simps)

lemma poolCheck_alerts:
  "set (poolAlerts (fst (poolCheck e cfg stats st))) \<subseteq> set (poolLevels (fst (poolCheck e cfg stats st)))"
  by (simp add: poolCheck_def Let_def case_prod_beta poolLevels_def poolAlerts_def map_filter_simps)

lemma processConn_fresh_alerts:
  assumes "IdleWarning cfg \<le> IdleCritical cfg"
    and "case map_of (tracked st) (PID conn) of None \<Rightarrow> True
         | Some tc \<Rightarrow> \<not> warningSent tc \<and> \<not> criticalSent tc"
  shows "idleAlerts (fst (processConn e cfg tb st conn)) =
     (if IdleCritical cfg \<le> IdleDuration (clock e (ticks st)) conn
      then [(SeverityWarning, PID conn), (SeverityCritical, PID conn)]
      else if IdleWarning cfg \<le> IdleDuration (clock e (ticks st)) conn
      then [(SeverityWarning, PID conn)] else [])"
proof -
  let ?tc = "fst (trackConn e (st\<lparr>ticks := Suc (ticks st)\<rparr>) conn)"
  have "\<not> warningSent ?tc \<and> \<not> criticalSent ?tc"
    using assms(2) by (simp add: trackConn_fst split: option.splits)
  with assms(1) show ?thesis
    by (simp add: processConn_idleAlerts checkWarning_idleAlerts checkCritical_idleAlerts
          checkWarning_flags)
qed

text \<open>
  C2 (amended). With a configuration that \<open>Validate\<close> accepts (each warning threshold is
  below its critical threshold): \<open>getSeverity\<close> of the status command, for an idle duration,
  and the pool check of the cycle, for the usage percentage, compare with the critical
  threshold first and give critical exactly when the value is at least the critical
  threshold, warning exactly when it is at least the warning threshold and below the critical
  one, and nothing exactly when it is below the warning threshold; a pool alert carries the
  severity of the branch taken. The loop body of the daemon does not classify: it tests the
  warning threshold first and the critical threshold second, independently, so for a session
  with both flags unset it dispatches a warning alert exactly when the duration is at least
  the warning threshold and, after it, a critical alert exactly when the duration is at least
  the critical threshold.
\<close>

theorem severity_by_thresholds:
  assumes "Validate database_url cfg = None"
  shows "(getSeverity cfg d = ''[CRIT]'' \<longleftrightarrow> IdleCritical cfg \<le> d) \<and>
         (getSeverity cfg d = ''[WARN]'' \<longleftrightarrow> IdleWarning cfg \<le> d \<and> d < IdleCritical cfg) \<and>
         (getSeverity cfg d = [] \<longleftrightarrow> d < IdleWarning cfg) \<and>
         (poolLevels (fst (poolCheck e cfg stats st)) = [SeverityCritical] \<longleftrightarrow>
            real_of_int (CriticalPercent cfg) \<le> UsagePercent e stats) \<and>
         (poolLevels (fst (poolCheck e cfg stats st)) = [SeverityWarning] \<longleftrightarrow>
            real_of_int (WarningPercent cfg) \<le> UsagePercent e stats \<and>
            UsagePercent e stats < real_of_int (CriticalPercent cfg)) \<and>
         (poolLevels (fst (poolCheck e cfg stats st)) = [] \<longleftrightarrow>
            UsagePercent e stats < real_of_int (WarningPercent cfg)) \<and>
         set (poolAlerts (fst (poolCheck e cfg stats st))) \<subseteq>
           set (poolLevels (fst (poolCheck e cfg stats st))) \<and>
         ((case map_of (tracked st) (PID conn) of None \<Rightarrow> True
           | Some tc \<Rightarrow> \<not> warningSent tc \<and> \<not> criticalSent tc) \<longrightarrow>
            idleAlerts (fst (processConn e cfg tb st conn)) =
              (if IdleCritical cfg \<le> IdleDuration (clock e (ticks st)) conn
               then [(SeverityWarning, PID conn), (SeverityCritical, PID conn)]
               else if IdleWarning cfg \<le> IdleDuration (clock e (ticks st)) conn
               then [(SeverityWarning, PID conn)] else []))"
proof -
  from Validate_thresholds [OF assms]
  have i: "IdleWarning cfg < IdleCritical cfg" and p: "WarningPercent cfg < CriticalPercent cfg"
    by simp_all
  from p have p': "real_of_int (WarningPercent cfg) < real_of_int (CriticalPercent cfg)" by simp
  have g: "(getSeverity cfg d = ''[CRIT]'' \<longleftrightarrow> IdleCritical cfg \<le> d) \<and>
         (getSeverity cfg d = ''[WARN]'' \<longleftrightarrow> IdleWarning cfg \<le> d \<and> d < IdleCritical cfg) \<and>
         (getSeverity cfg d = [] \<longleftrightarrow> d < IdleWarning cfg)"
    using i by (auto simp: getSeverity_def)
  have l: "(poolLevels (fst (poolCheck e cfg stats st)) = [SeverityCritical] \<longleftrightarrow>
            real_of_int (CriticalPercent cfg) \<le> UsagePercent e stats) \<and>
         (poolLevels (fst (poolCheck e cfg stats st)) = [SeverityWarning] \<longleftrightarrow>
            real_of_int (WarningPercent cfg) \<le> UsagePercent e stats \<and>
            UsagePercent e stats < real_of_int (CriticalPercent cfg)) \<and>
         (poolLevels (fst (poolCheck e cfg stats st)) = [] \<longleftrightarrow>
            UsagePercent e stats < real_of_int (WarningPercent cfg))"
    unfolding poolCheck_levels using p' sev_distinct by auto
  from i have le: "IdleWarning cfg \<le> IdleCritical cfg" by simp
  from g l poolCheck_alerts [of e cfg stats st] processConn_fresh_alerts [OF le, of st conn e tb]
  show ?thesis by blast
qed

text \<open>
  The durations of the specification's example (29, 30, 119 and 120 seconds with thresholds
  of 30 seconds and two minutes), a full pool, and a session first seen after three minutes.
\<close>

theorem severity_by_thresholds_witness:
  "Validate [] localConfig = None \<and>
   getSeverity localConfig (29 * Second) = [] \<and>
   getSeverity localConfig (30 * Second) = ''[WARN]'' \<and>
   getSeverity localConfig (119 * Second) = ''[WARN]'' \<and>
   getSeverity localConfig (120 * Second) = ''[CRIT]'' \<and>
   poolLevels (fst (poolCheck steadyEnv localConfig fullPool startDaemon)) = [SeverityCritical] \<and>
   idleAlerts (fst (processConn steadyEnv localConfig (\<lambda>p. Inr True) startDaemon batchJob)) =
     [(SeverityWarning, PID batchJob), (SeverityCritical, PID batchJob)]"
proof -
  have v: "Validate [] localConfig = None" by code_simp
  note t = severity_by_thresholds [OF v]
  have "29 * Second < IdleWarning localConfig" by code_simp
  with t [of "29 * Second"] have a: "getSeverity localConfig (29 * Second) = []" by blast
  have "IdleWarning localConfig \<le> 30 * Second \<and> 30 * Second < IdleCritical localConfig"
    by code_simp
  with t [of "30 * Second"] have b: "getSeverity localConfig (30 * Second) = ''[WARN]''" by blast
  have "IdleWarning localConfig \<le> 119 * Second \<and> 119 * Second < IdleCritical localConfig"
    by code_simp
  with t [of "119 * Second"] have c: "getSeverity localConfig (119 * Second) = ''[WARN]''" by blast
  have "IdleCritical localConfig \<le> 120 * Second" by code_simp
  with t [of "120 * Second"] have d: "getSeverity localConfig (120 * Second) = ''[CRIT]''" by blast
  have "real_of_int (CriticalPercent localConfig) \<le> UsagePercent steadyEnv fullPool" by code_simp
  with t [of _ steadyEnv fullPool startDaemon]
  have e: "poolLevels (fst (poolCheck steadyEnv localConfig fullPool startDaemon)) = [SeverityCritical]"
    by blast
  have h1: "case map_of (tracked startDaemon) (PID batchJob) of None \<Rightarrow> True
            | Some tc \<Rightarrow> \<not> warningSent tc \<and> \<not> criticalSent tc"
    by (simp add: startDaemon_def)
  have h2: "IdleCritical localConfig \<le> IdleDuration (clock steadyEnv (ticks startDaemon)) batchJob"
    by code_simp
  from t [of _ steadyEnv _ startDaemon batchJob "\<lambda>p. Inr True"] h1 h2
  have f: "idleAlerts (fst (processConn steadyEnv localConfig (\<lambda>p. Inr True) startDaemon batchJob)) =
     [(SeverityWarning, PID batchJob), (SeverityCritical, PID batchJob)]"
    by simp
  from v a b c d e f show ?thesis by blast
qed

text \<open>
  C2 as stated fails in the loop body of the daemon: a session first seen exactly at the
  critical threshold (120 seconds) is sent an alert of severity warning, although its duration
  is not below the critical threshold.
\<close>

theorem warning_alert_at_critical_counterexample:
  "IdleDuration (clock steadyEnv (ticks startDaemon)) (sessionSince 1003 ''batch-job'' 120) = 120 * Second \<and>
   IdleTransactionAlert SeverityWarning 1003 ''batch-job'' (120 * Second) ''SELECT 1''
     \<in> set (fst (processConn steadyEnv localConfig (\<lambda>p. Inr True) startDaemon
                (sessionSince 1003 ''batch-job'' 120))) \<and>
   \<not> (IdleWarning localConfig \<le> 120 * Second \<and> 120 * Second < IdleCritical localConfig)"
  by code_simp

subsection \<open>Failed fetches\<close>

lemma phase_pool: "list_all (\<lambda>ev. phaseOf ev = 0) (fst (poolCheck e cfg stats st))"
  by (simp add: poolCheck_def Let_def case_prod_beta)

text \<open>
  C7 (amended). When the fetch of the pool statistics fails, \<open>pollAndAlert\<close> returns the
  error with no event and the state as it was. When the fetch of the idle transactions
  fails, it returns the error after the pool check: the table is as it was and the events of
  the cycle are those of the pool check only, which may have dispatched a pool alert and
  stored its time in the cooldown gate. In both cases the driver logs the error and goes on
  with the next reception from the state that \<open>pollAndAlert\<close> left.
\<close>

theorem fetch_failure_effects:
  "(poolStats inp = Inl err \<longrightarrow> pollAndAlert e cfg inp st = ([], Some err, st)) \<and>
   (poolStats inp = Inr stats \<and> idleTransactions inp = Inl err \<longrightarrow>
      pollAndAlert e cfg inp st =
        (fst (poolCheck e cfg stats st), Some err, snd (poolCheck e cfg stats st)) \<and>
      tracked (snd (snd (pollAndAlert e cfg inp st))) = tracked st \<and>
      list_all (\<lambda>ev. phaseOf ev = 0) (fst (pollAndAlert e cfg inp st))) \<and>
   (fst (snd (pollAndAlert e cfg inp st)) = Some err \<longrightarrow>
      monitorFrom e cfg st (Tick inp # rest) =
        (fst (pollAndAlert e cfg inp st) @ [LogPollingFailed err] @
           fst (monitorFrom e cfg (snd (snd (pollAndAlert e cfg inp st))) rest),
         snd (monitorFrom e cfg (snd (snd (pollAndAlert e cfg inp st))) rest)))"
  by (auto simp: pollAndAlert_def case_prod_beta poolCheck_tracked phase_pool Let_def)

text \<open>A cycle whose first fetch fails, and one whose second fetch fails.\<close>

theorem fetch_failure_effects_witness:
  "poolStats unreachableCycle = Inl (QueryError ''connection refused'') \<and>
   pollAndAlert steadyEnv localConfig unreachableCycle startDaemon =
     ([], Some (QueryError ''connection refused''), startDaemon) \<and>
   poolStats failingCycle = Inr fullPool \<and>
   idleTransactions failingCycle = Inl (QueryError ''context deadline exceeded'') \<and>
   tracked (snd (snd (pollAndAlert steadyEnv localConfig failingCycle startDaemon))) =
     tracked startDaemon \<and>
   list_all (\<lambda>ev. phaseOf ev = 0) (fst (pollAndAlert steadyEnv localConfig failingCycle startDaemon))"
proof -
  have h1: "poolStats unreachableCycle = Inl (QueryError ''connection refused'')"
    by (simp add: unreachableCycle_def)
  have h2: "poolStats failingCycle = Inr fullPool \<and>
            idleTransactions failingCycle = Inl (QueryError ''context deadline exceeded'')"
    by (simp add: failingCycle_def)
  from h1 fetch_failure_effects [of unreachableCycle "QueryError ''connection refused''"
      steadyEnv localConfig startDaemon]
  have a: "pollAndAlert steadyEnv localConfig unreachableCycle startDaemon =
     ([], Some (QueryError ''connection refused''), startDaemon)" by blast
  from h2 fetch_failure_effects [of failingCycle "QueryError ''context deadline exceeded''"
      steadyEnv localConfig startDaemon fullPool]
  have b: "tracked (snd (snd (pollAndAlert steadyEnv localConfig failingCycle startDaemon))) =
     tracked startDaemon \<and>
   list_all (\<lambda>ev. phaseOf ev = 0) (fst (pollAndAlert steadyEnv localConfig failingCycle startDaemon))"
    by blast
  from h1 h2 a b show ?thesis by blast
qed

text \<open>
  C7 as stated fails when the second fetch fails while the pool is at its critical
  threshold: a critical pool alert is dispatched and the gate's critical timestamp changes.
\<close>

theorem pool_alert_before_failed_fetch_counterexample:
  "pollAndAlert steadyEnv localConfig failingCycle startDaemon =
     ([LogPoolCritical 100 97 97, PoolAlert SeverityCritical 97 97 100],
      Some (QueryError ''context deadline exceeded''),
      \<lparr>cooldown = freshCooldown\<lparr>lastPoolCritical := clockAt 0\<rparr>, tracked = [], ticks = 1\<rparr>) \<and>
   freshCooldown\<lparr>lastPoolCritical := clockAt 0\<rparr> \<noteq> cooldown startDaemon"
  by code_simp

subsection \<open>Order within a cycle\<close>

lemma sorted_const: "list_all (\<lambda>ev. f ev = (k::nat)) evs \<Longrightarrow> sorted (map f evs)"
  by (induction evs) (auto simp: list_all_iff)

lemma stage_pool: "list_all (\<lambda>ev. stageOf ev = 0) (fst (poolCheck e cfg stats st))"
  by (simp add: poolCheck_def Let_def case_prod_beta)

lemma stage_checkWarning: "list_all (\<lambda>ev. stageOf ev = 1) (fst (checkWarning cfg conn d tc))"
  by (simp add: checkWarning_def)

lemma stage_checkCritical: "list_all (\<lambda>ev. stageOf ev = 1) (fst (checkCritical cfg conn d tc))"
  by (simp add: checkCritical_def)

lemma stage_autoTerminate: "list_all (\<lambda>ev. stageOf ev = 1) (autoTerminate cfg tb conn d)"
  by (simp add: autoTerminate_def split: sum.splits)

lemma phase_checkWarning: "list_all (\<lambda>ev. phaseOf ev = 1) (fst (checkWarning cfg conn d tc))"
  by (simp add: checkWarning_def)

lemma phase_checkCritical: "list_all (\<lambda>ev. phaseOf ev = 1) (fst (checkCritical cfg conn d tc))"
  by (simp add: checkCritical_def)

lemma phase_autoTerminate: "list_all (\<lambda>ev. phaseOf ev = 2) (autoTerminate cfg tb conn d)"
  by (simp add: autoTerminate_def split: sum.splits)

lemma phase_processConn: "sorted (map phaseOf (fst (processConn e cfg tb st conn)))"
  unfolding processConn_fst map_append sorted_append
  using phase_checkWarning [of cfg conn "IdleDuration (clock e (ticks st)) conn"]
    phase_checkCritical [of cfg conn "IdleDuration (clock e (ticks st)) conn"]
    phase_autoTerminate [of cfg tb conn "IdleDuration (clock e (ticks st)) conn"]
  by (auto simp: list_all_iff intro!: sorted_const)

lemma stage_processConn: "list_all (\<lambda>ev. stageOf ev = 1) (fst (processConn e cfg tb st conn))"
  unfolding processConn_fst
  by (simp add: stage_checkWarning stage_checkCritical stage_autoTerminate del: One_nat_def)

lemma stage_processConns: "list_all (\<lambda>ev. stageOf ev = 1) (fst (processConns e cfg tb st conns))"
  by (induction conns arbitrary: st)
     (simp_all add: Let_def case_prod_beta stage_processConn del: One_nat_def)

lemma stage_resolveLoop: "list_all (\<lambda>ev. stageOf ev = 2) (fst (resolveLoop e seen st entries))"
  by (induction entries arbitrary: st) (auto simp: Let_def case_prod_beta)

lemma stage_pollAndAlert: "sorted (map stageOf (fst (pollAndAlert e cfg inp st)))"
proof (cases "poolStats inp")
  case (Inl err)
  then show ?thesis by (simp add: pollAndAlert_def)
next
  case (Inr stats)
  note a = stage_pool [of e cfg stats st]
  show ?thesis
  proof (cases "idleTransactions inp")
    case (Inl err)
    with Inr sorted_const [OF a] show ?thesis by (simp add: pollAndAlert_def case_prod_beta)
  next
    case (Inr conns)
    let ?st1 = "snd (poolCheck e cfg stats st)"
    let ?r2 = "processConns e cfg (terminate inp) ?st1 conns"
    note b = stage_processConns [of e cfg "terminate inp" ?st1 conns]
    note c = stage_resolveLoop [of e "map PID conns" "snd ?r2" "rangeOrder e (tracked (snd ?r2))"]
    from \<open>poolStats inp = Inr stats\<close> Inr a b c sorted_const [OF a] sorted_const [OF b] sorted_const [OF c]
    show ?thesis
      by (auto simp: pollAndAlert_def case_prod_beta sorted_append list_all_iff)
  qed
qed

lemma processConn_eventPIDs:
  "list_all (\<lambda>ev. eventPID ev = Some (PID conn)) (fst (processConn e cfg tb st conn))"
  using processConn_eventPID [of _ e cfg tb st conn] by (simp add: list_all_iff)

text \<open>
  C8 (amended). In every cycle the events of the pool check come before those of the loop
  over the sessions, which come before those of the resolution of sessions. The loop handles
  the sessions one after the other in the order of the list: the events of one pass of its
  body all carry that session's identifier, with the session's idle evaluation before its
  own auto-terminate evaluation, and the trace of the loop is the trace of the first pass
  followed by that of the remaining sessions.
\<close>

theorem cycle_stage_order:
  "sorted (map stageOf (fst (pollAndAlert e cfg inp st))) \<and>
   sorted (map phaseOf (fst (processConn e cfg tb st conn))) \<and>
   list_all (\<lambda>ev. eventPID ev = Some (PID conn)) (fst (processConn e cfg tb st conn)) \<and>
   fst (processConns e cfg tb st (conn # conns)) =
     fst (processConn e cfg tb st conn) @
     fst (processConns e cfg tb (snd (processConn e cfg tb st conn)) conns)"
  using stage_pollAndAlert [of e cfg inp st] phase_processConn [of e cfg tb st conn]
    processConn_eventPIDs [of conn e cfg tb st]
  by (simp add: Let_def case_prod_beta)

text \<open>Two sessions that are both alerted and terminated in one cycle.\<close>

theorem cycle_stage_order_witness:
  "map stageOf (fst (pollAndAlert steadyEnv terminatingConfig (cycleWith twoBatches) startDaemon)) =
     [1, 1, 1, 1, 1, 1, 1, 1, 1, 1, 1, 1, 1, 1] \<and>
   sorted (map stageOf (fst (pollAndAlert steadyEnv terminatingConfig (cycleWith twoBatches) startDaemon)))"
proof -
  have a: "map stageOf (fst (pollAndAlert steadyEnv terminatingConfig (cycleWith twoBatches) startDaemon)) =
     [1, 1, 1, 1, 1, 1, 1, 1, 1, 1, 1, 1, 1, 1]" by code_simp
  from a cycle_stage_order [of steadyEnv terminatingConfig "cycleWith twoBatches" startDaemon]
  show ?thesis by blast
qed

text \<open>
  C8 as stated fails with two sessions: the auto-terminate events of the first session come
  before the idle evaluation events of the second, so the phases of the trace are not in
  order.
\<close>

theorem interleaved_sessions_counterexample:
  "map phaseOf (fst (pollAndAlert steadyEnv terminatingConfig (cycleWith twoBatches) startDaemon)) =
     [1, 1, 1, 1, 2, 2, 2, 1, 1, 1, 1, 2, 2, 2] \<and>
   \<not> sorted (map phaseOf (fst (pollAndAlert steadyEnv terminatingConfig (cycleWith twoBatches) startDaemon)))"
  by code_simp

subsection \<open>The end-to-end scenario\<close>

lemma scenario_cycle3:
  "0 \<le> t3 \<Longrightarrow> t3 \<le> 9000000000 \<Longrightarrow>
   pollAndAlert (scenarioEnv t3) localConfig (cycleWith []) afterCycle2 =
     ([LogResolved 1002 ''worker'' (t3 * Second), ResolvedAlert 1002 ''worker'' (t3 * Second)],
      None, afterCycle3)"
  by (simp add: pollAndAlert_def cycleWith_def poolCheck_def UsagePercent_def quietPool_def
        scenarioEnv_def envWith_def localConfig_def DefaultConfig_def afterCycle2_def afterCycle3_def
        workerTracked_def Since_def Sub_def clockAt_def saturate_def minDuration_def maxDuration_def
        Second_def Let_def)

text \<open>
  C9. With thresholds of 30 seconds and two minutes, for session 1002 whose state changed
  45 seconds before the first cycle: the first cycle, at t = 0, dispatches one warning alert
  (duration 45 seconds) and tracks the session with the warning flag set and the critical
  flag unset; the second cycle, 90 seconds later, dispatches one critical alert (duration
  135 seconds) and sets the critical flag; a third cycle in which the session is absent,
  \<open>t3\<close> seconds after the first, dispatches one resolved alert and removes the entry. The
  resolved alert carries the time since the first observation, \<open>t3\<close> seconds: the offsets of
  the scenario follow one another, so the third cycle comes 120 seconds after the second,
  at \<open>t3 = 210\<close>, and the alert carries 210 seconds.
\<close>

theorem scenario_trace:
  assumes "90 \<le> t3" and "t3 \<le> 9000000000"
  shows "IdleDuration (clockAt 0) worker = 45 * Second \<and>
         IdleDuration (clockAt 90) worker = 135 * Second \<and>
         pollAndAlert (scenarioEnv t3) localConfig (cycleWith [worker]) (startDaemon\<lparr>tracked := []\<rparr>) =
           ([LogIdleDetected 1002 ''worker'' (45 * Second),
             IdleTransactionAlert SeverityWarning 1002 ''worker'' (45 * Second) ''SELECT 1''],
            None, afterCycle1) \<and>
         tracked afterCycle1 = [(1002, workerTracked True False)] \<and>
         pollAndAlert (scenarioEnv t3) localConfig (cycleWith [worker]) afterCycle1 =
           ([LogIdleCritical 1002 ''worker'' (135 * Second),
             IdleTransactionAlert SeverityCritical 1002 ''worker'' (135 * Second) ''SELECT 1''],
            None, afterCycle2) \<and>
         tracked afterCycle2 = [(1002, workerTracked True True)] \<and>
         pollAndAlert (scenarioEnv t3) localConfig (cycleWith []) afterCycle2 =
           ([LogResolved 1002 ''worker'' (t3 * Second),
             ResolvedAlert 1002 ''worker'' (t3 * Second)],
            None, afterCycle3) \<and>
         tracked afterCycle3 = [] \<and>
         monitorLoop (scenarioEnv t3) localConfig startDaemon
             [Tick (cycleWith [worker]), Tick (cycleWith [worker]), Tick (cycleWith [])] =
           ([LogIdleDetected 1002 ''worker'' (45 * Second),
             IdleTransactionAlert SeverityWarning 1002 ''worker'' (45 * Second) ''SELECT 1'',
             LogIdleCritical 1002 ''worker'' (135 * Second),
             IdleTransactionAlert SeverityCritical 1002 ''worker'' (135 * Second) ''SELECT 1'',
             LogResolved 1002 ''worker'' (t3 * Second),
             ResolvedAlert 1002 ''worker'' (t3 * Second)],
            afterCycle3, False)"
proof -
  have d1: "IdleDuration (clockAt 0) worker = 45 * Second" by code_simp
  have d2: "IdleDuration (clockAt 90) worker = 135 * Second" by code_simp
  have s0: "startDaemon\<lparr>tracked := []\<rparr> = startDaemon" by (simp add: startDaemon_def)
  from assms have c3: "pollAndAlert (scenarioEnv t3) localConfig (cycleWith []) afterCycle2 =
           ([LogResolved 1002 ''worker'' (t3 * Second),
             ResolvedAlert 1002 ''worker'' (t3 * Second)],
            None, afterCycle3)"
    by (intro scenario_cycle3) simp_all
  show ?thesis
    by (simp add: d1 d2 s0 c3 scenario_cycle1 scenario_cycle2 monitorLoop_def)
       (simp add: afterCycle1_def afterCycle2_def afterCycle3_def)
qed

text \<open>The scenario with the third cycle 120 seconds after the second.\<close>

theorem scenario_trace_witness:
  "(90::int) \<le> 210 \<and> (210::int) \<le> 9000000000 \<and>
   pollAndAlert (scenarioEnv 210) localConfig (cycleWith []) afterCycle2 =
     ([LogResolved 1002 ''worker'' (210 * Second),
       ResolvedAlert 1002 ''worker'' (210 * Second)],
      None, afterCycle3) \<and>
   monitorLoop (scenarioEnv 210) localConfig startDaemon
       [Tick (cycleWith [worker]), Tick (cycleWith [worker]), Tick (cycleWith [])] =
     ([LogIdleDetected 1002 ''worker'' (45 * Second),
       IdleTransactionAlert SeverityWarning 1002 ''worker'' (45 * Second) ''SELECT 1'',
       LogIdleCritical 1002 ''worker'' (135 * Second),
       IdleTransactionAlert SeverityCritical 1002 ''worker'' (135 * Second) ''SELECT 1'',
       LogResolved 1002 ''worker'' (210 * Second),
       ResolvedAlert 1002 ''worker'' (210 * Second)],
      afterCycle3, False)"
proof -
  have h1: "(90::int) \<le> 210" and h2: "(210::int) \<le> 9000000000" by simp_all
  from scenario_trace [OF h1 h2] h1 h2 show ?thesis by blast
qed

end
